theory Spec2Isabelle
  imports Main "HOL-Library.Word"
begin

unbundle bit_operations_syntax

section \<open>Data model of \<open>bigint.h\<close>\<close>

text \<open>
  A \<open>Bigint<bits>\<close> owns an array \<open>storage\<close> of \<open>bits / 32\<close> words of type
  \<open>unsigned int\<close>, least significant word first. A value is modelled by the list of
  its words; \<open>bits\<close>, the template parameter, is an explicit argument of every operation
  that mentions it. \<open>unsigned int\<close> is \<open>32 word\<close>, \<open>unsigned long long\<close> is
  \<open>64 word\<close>; shift counts and loop indices are natural numbers, with the wrap-around
  of \<open>unsigned short\<close> and \<open>unsigned int\<close> written out where the source relies on
  those types.
\<close>

type_synonym u32 = "32 word"
type_synonym u64 = "64 word"
type_synonym bigint = "u32 list"

text \<open>
  \<open>DomainError\<close> is the \<open>std::domain_error\<close> thrown by the constructor from text;
  \<open>OutOfBounds\<close> marks a write to \<open>storage[i]\<close> with \<open>i\<close> outside the allocated array.
\<close>

datatype error = DomainError | OutOfBounds

definition nwords :: "nat \<Rightarrow> nat" where
  "nwords bits = bits div 32"

text \<open>The value a count has once it is stored in an \<open>unsigned short\<close>.\<close>

definition ushort :: "nat \<Rightarrow> nat" where
  "ushort k = unat (word_of_nat k :: 16 word)"

text \<open>The numeric value of a word list (little-endian), used to state properties.\<close>

fun val :: "bigint \<Rightarrow> nat" where
  "val [] = 0"
| "val (w # ws) = unat w + 2 ^ 32 * val ws"

subsection \<open>Construction\<close>

text \<open>A write \<open>storage[i] = v\<close> into an array of \<open>length st\<close> words.\<close>

definition store :: "bigint \<Rightarrow> nat \<Rightarrow> u32 \<Rightarrow> error + bigint" where
  "store st i v = (if i < length st then Inr (st[i := v]) else Inl OutOfBounds)"

text \<open>
  \<open>Bigint(const unsigned long long &x)\<close>: allocate \<open>bits / 32\<close> zeroed words, then
  \<open>storage[0] = x; storage[1] = x >> 32;\<close>, both writes unconditional.
\<close>

definition Bigint_ull :: "nat \<Rightarrow> u64 \<Rightarrow> error + bigint" where
  "Bigint_ull bits x =
     (case store (replicate (nwords bits) 0) 0 (ucast x) of
        Inl e \<Rightarrow> Inl e
      | Inr st \<Rightarrow> store st 1 (ucast (drop_bit 32 x)))"

text \<open>
  The storage that constructor leaves when both writes are in range, that is for
  \<open>64 \<le> bits\<close> (see \<open>Bigint_ull_words\<close> below; for a narrower width the
  constructor is \<open>Inl OutOfBounds\<close>). The arithmetic operators build their locals
  (\<open>Bigint res;\<close>, \<open>Bigint e(1);\<close>, \<open>return Bigint();\<close>) with it, so the
  operators defined from it below (\<open>op_add\<close>, \<open>op_sub\<close>, \<open>op_mul\<close>, \<open>op_shl\<close>,
  \<open>op_shr\<close>, the loops of \<open>op_div\<close> and \<open>op_mod\<close>, and what is built from these)
  describe the code for widths that are multiples of 32 and at least 64 only (the
  early return of \<open>op_div\<close> and \<open>op_mod\<close>, which constructs nothing, apart).
\<close>

definition Bigint_words :: "nat \<Rightarrow> u64 \<Rightarrow> bigint" where
  "Bigint_words bits x = (replicate (nwords bits) 0)[0 := ucast x, 1 := ucast (drop_bit 32 x)]"

subsection \<open>Comparison and introspection\<close>

text \<open>\<open>operator==\<close> and \<open>operator!=\<close>: word by word over all \<open>bits / 32\<close> indices.\<close>

definition op_eq :: "nat \<Rightarrow> bigint \<Rightarrow> bigint \<Rightarrow> bool" where
  "op_eq bits a x = list_all (\<lambda>i. a ! i = x ! i) [0..<nwords bits]"

definition op_ne :: "nat \<Rightarrow> bigint \<Rightarrow> bigint \<Rightarrow> bool" where
  "op_ne bits a x = list_ex (\<lambda>i. a ! i \<noteq> x ! i) [0..<nwords bits]"

text \<open>
  \<open>operator<\<close> and \<open>operator>\<close>: \<open>for (int i = bits / 32 - 1; i >= 0; --i)\<close>; the
  third argument of the scan is \<open>i + 1\<close>.
\<close>

fun lt_scan :: "bigint \<Rightarrow> bigint \<Rightarrow> nat \<Rightarrow> bool" where
  "lt_scan a x 0 = False"
| "lt_scan a x (Suc i) =
     (if a ! i \<noteq> 0 \<or> x ! i \<noteq> 0 then a ! i < x ! i else lt_scan a x i)"

fun gt_scan :: "bigint \<Rightarrow> bigint \<Rightarrow> nat \<Rightarrow> bool" where
  "gt_scan a x 0 = False"
| "gt_scan a x (Suc i) =
     (if a ! i \<noteq> 0 \<or> x ! i \<noteq> 0 then a ! i > x ! i else gt_scan a x i)"

definition op_lt :: "nat \<Rightarrow> bigint \<Rightarrow> bigint \<Rightarrow> bool" where
  "op_lt bits a x = lt_scan a x (nwords bits)"

definition op_gt :: "nat \<Rightarrow> bigint \<Rightarrow> bigint \<Rightarrow> bool" where
  "op_gt bits a x = gt_scan a x (nwords bits)"

text \<open>\<open>__builtin_clz\<close> on a non-zero 32-bit word: the number of leading zero bits.\<close>

fun clz_from :: "nat \<Rightarrow> u32 \<Rightarrow> nat" where
  "clz_from 0 w = 0"
| "clz_from (Suc k) w = (if bit w k then 0 else Suc (clz_from k w))"

definition builtin_clz :: "u32 \<Rightarrow> nat" where
  "builtin_clz w = clz_from 32 w"

text \<open>
  \<open>num_bits\<close>: \<open>i = bits / 32 - 1; while (i > 0 && storage[i] == 0) --i;\<close> and then
  \<open>storage[i] == 0 ? i * 32 : (i + 1) * 32 - __builtin_clz(storage[i])\<close>.
\<close>

fun num_bits_scan :: "bigint \<Rightarrow> nat \<Rightarrow> nat" where
  "num_bits_scan a 0 = 0"
| "num_bits_scan a (Suc i) = (if a ! Suc i = 0 then num_bits_scan a i else Suc i)"

definition num_bits :: "nat \<Rightarrow> bigint \<Rightarrow> nat" where
  "num_bits bits a =
     (let i = num_bits_scan a (nwords bits - 1)
      in if a ! i = 0 then i * 32 else (i + 1) * 32 - builtin_clz (a ! i))"

definition is_even :: "bigint \<Rightarrow> bool" where
  "is_even a = (a ! 0 AND 1 = 0)"

definition is_odd :: "bigint \<Rightarrow> bool" where
  "is_odd a = (a ! 0 AND 1 \<noteq> 0)"

subsection \<open>Addition, subtraction, multiplication\<close>

text \<open>
  \<open>operator+\<close>: the loop state is \<open>(carry, res)\<close>; \<open>temp\<close> is 64 bits wide, the carry
  is \<open>temp >> 32\<close> and the stored word is \<open>temp\<close> truncated.
\<close>

definition add_step :: "bigint \<Rightarrow> bigint \<Rightarrow> nat \<Rightarrow> u32 \<times> bigint \<Rightarrow> u32 \<times> bigint" where
  "add_step a x i s =
     (let temp = (ucast (a ! i) :: u64) + ucast (x ! i) + ucast (fst s)
      in (ucast (drop_bit 32 temp), (snd s)[i := ucast temp]))"

definition op_add :: "nat \<Rightarrow> bigint \<Rightarrow> bigint \<Rightarrow> bigint" where
  "op_add bits a x = snd (fold (add_step a x) [0..<nwords bits] (0, Bigint_words bits 0))"

text \<open>\<open>operator-\<close>: the borrow is bit 63 of \<open>temp\<close>.\<close>

definition sub_step :: "bigint \<Rightarrow> bigint \<Rightarrow> nat \<Rightarrow> u32 \<times> bigint \<Rightarrow> u32 \<times> bigint" where
  "sub_step a x i s =
     (let temp = (ucast (a ! i) :: u64) - (ucast (x ! i) + ucast (fst s))
      in (ucast (drop_bit 63 temp), (snd s)[i := ucast temp]))"

definition op_sub :: "nat \<Rightarrow> bigint \<Rightarrow> bigint \<Rightarrow> bigint" where
  "op_sub bits a x = snd (fold (sub_step a x) [0..<nwords bits] (0, Bigint_words bits 0))"

text \<open>
  \<open>operator*\<close>: \<open>temp = res[k] + storage[i] * x.storage[j] + carry\<close> in 64 bits;
  \<open>k\<close> is an \<open>unsigned short\<close>, \<open>carry\<close> an \<open>unsigned long long\<close> reset to 0
  for every \<open>i\<close>. The inner loop over \<open>j\<close> makes at most \<open>bits / 32\<close> passes (the
  first argument counts the passes left) and stops (\<open>break\<close>) at the first \<open>k\<close>
  outside the array.
\<close>

definition mul_temp :: "bigint \<Rightarrow> bigint \<Rightarrow> nat \<Rightarrow> nat \<Rightarrow> nat \<Rightarrow> u64 \<Rightarrow> bigint \<Rightarrow> u64" where
  "mul_temp a x i j k carry res =
     (ucast (res ! k) :: u64) + ucast (a ! i) * ucast (x ! j) + carry"

fun mul_inner :: "nat \<Rightarrow> nat \<Rightarrow> bigint \<Rightarrow> bigint \<Rightarrow> nat \<Rightarrow> nat \<Rightarrow> u64 \<Rightarrow> bigint \<Rightarrow> bigint" where
  "mul_inner 0 n a x i j carry res = res"
| "mul_inner (Suc left) n a x i j carry res =
     (if ushort (i + j) < n then
        mul_inner left n a x i (j + 1)
          (drop_bit 32 (mul_temp a x i j (ushort (i + j)) carry res))
          (res[ushort (i + j) := ucast (mul_temp a x i j (ushort (i + j)) carry res)])
      else res)"

definition op_mul :: "nat \<Rightarrow> bigint \<Rightarrow> bigint \<Rightarrow> bigint" where
  "op_mul bits a x =
     fold (\<lambda>i res. mul_inner (nwords bits) (nwords bits) a x i 0 0 res)
       [0..<nwords bits] (Bigint_words bits 0)"

subsection \<open>Shifts\<close>

text \<open>
  \<open>operator<<\<close>: the loop runs \<open>i\<close> from \<open>bits / 32 - 1\<close> down to \<open>full_shifts + 1\<close>,
  then \<open>ret.storage[full_shifts] = storage[0] << lshift\<close>.
\<close>

definition op_shl :: "nat \<Rightarrow> bigint \<Rightarrow> nat \<Rightarrow> bigint" where
  "op_shl bits a shift =
     (if shift \<ge> bits then Bigint_words bits 0
      else
        let full_shifts = shift div 32;
            lshift = shift mod 32;
            rshift = 32 - lshift;
            ret = (if lshift = 0 then
                     fold (\<lambda>i ret. ret[i := push_bit lshift (a ! (i - full_shifts))])
                       (rev [Suc full_shifts..<nwords bits]) (Bigint_words bits 0)
                   else
                     fold (\<lambda>i ret. ret[i := push_bit lshift (a ! (i - full_shifts))
                                              OR drop_bit rshift (a ! (i - full_shifts - 1))])
                       (rev [Suc full_shifts..<nwords bits]) (Bigint_words bits 0))
        in ret[full_shifts := push_bit lshift (a ! 0)])"

text \<open>\<open>operator>>\<close>: \<open>n = bits / 32 - full_shifts\<close> destination words.\<close>

definition op_shr :: "nat \<Rightarrow> bigint \<Rightarrow> nat \<Rightarrow> bigint" where
  "op_shr bits a shift =
     (if shift \<ge> bits then Bigint_words bits 0
      else
        let full_shifts = shift div 32;
            small_shift = shift mod 32;
            n = nwords bits - full_shifts
        in if small_shift = 0 then
             fold (\<lambda>i ret. ret[i := a ! (i + full_shifts)]) [0..<n] (Bigint_words bits 0)
           else
             (fold (\<lambda>i ret. ret[i := drop_bit small_shift (a ! (i + full_shifts))
                                      OR push_bit (32 - small_shift) (a ! (i + full_shifts + 1))])
                [0..<n - 1] (Bigint_words bits 0))
               [n - 1 := drop_bit small_shift (a ! (n - 1 + full_shifts))])"

subsection \<open>Division and modulo\<close>

text \<open>
  \<open>operator/\<close>. The early return hands back \<open>*this\<close>. \<open>bd\<close> is an \<open>unsigned int\<close>
  difference. One pass of \<open>while (true)\<close> is \<open>div_step\<close>; \<open>if (bd-- == 0) break;\<close>
  is the recursion on \<open>bd\<close>.
\<close>

definition div_step :: "nat \<Rightarrow> bigint \<Rightarrow> bigint \<Rightarrow> bigint \<Rightarrow> bigint \<Rightarrow> bigint \<times> bigint" where
  "div_step bits rem quo c e =
     (let r = op_sub bits rem c;
          d = (1 :: u32) - drop_bit 31 (r ! (nwords bits - 1))
      in if d \<noteq> 0 then (r, op_add bits quo e) else (rem, quo))"

fun div_loop :: "nat \<Rightarrow> bigint \<Rightarrow> bigint \<Rightarrow> bigint \<Rightarrow> bigint \<Rightarrow> nat \<Rightarrow> bigint" where
  "div_loop bits rem quo c e 0 = snd (div_step bits rem quo c e)"
| "div_loop bits rem quo c e (Suc bd) =
     div_loop bits (fst (div_step bits rem quo c e)) (snd (div_step bits rem quo c e))
       (op_shr bits c 1) (op_shr bits e 1) bd"

definition bit_difference :: "nat \<Rightarrow> bigint \<Rightarrow> bigint \<Rightarrow> nat" where
  "bit_difference bits a x =
     unat ((word_of_nat (num_bits bits a) :: u32) - word_of_nat (num_bits bits x))"

definition op_div :: "nat \<Rightarrow> bigint \<Rightarrow> bigint \<Rightarrow> bigint" where
  "op_div bits a x =
     (if op_lt bits a x then a
      else
        let bd = bit_difference bits a x
        in div_loop bits a (Bigint_words bits 0)
             (op_shl bits x bd) (op_shl bits (Bigint_words bits 1) bd) bd)"

text \<open>\<open>operator%\<close>: the same loop, keeping only the remainder.\<close>

definition mod_step :: "nat \<Rightarrow> bigint \<Rightarrow> bigint \<Rightarrow> bigint" where
  "mod_step bits rem c =
     (let r = op_sub bits rem c;
          d = drop_bit 31 (r ! (nwords bits - 1))
      in if d = 0 then r else rem)"

fun mod_loop :: "nat \<Rightarrow> bigint \<Rightarrow> bigint \<Rightarrow> nat \<Rightarrow> bigint" where
  "mod_loop bits rem c 0 = mod_step bits rem c"
| "mod_loop bits rem c (Suc bd) = mod_loop bits (mod_step bits rem c) (op_shr bits c 1) bd"

definition op_mod :: "nat \<Rightarrow> bigint \<Rightarrow> bigint \<Rightarrow> bigint" where
  "op_mod bits a x =
     (if op_lt bits a x then a
      else
        let bd = bit_difference bits a x
        in mod_loop bits a (op_shl bits x bd) bd)"

subsection \<open>Number-theoretic algorithms\<close>

text \<open>
  \<open>gcd\<close>: \<open>while (b_temp != null) { temp = b_temp; b_temp = a % b_temp; a = temp; }\<close>.
  The loops of this section have no bound that can be read off their text, so each is a
  partial function: \<open>None\<close> stands for a loop that never leaves.
\<close>

partial_function (option) gcd_loop :: "nat \<Rightarrow> bigint \<Rightarrow> bigint \<Rightarrow> bigint option" where
  "gcd_loop bits a b_temp =
     (if op_ne bits b_temp (Bigint_words bits 0)
      then gcd_loop bits b_temp (op_mod bits a b_temp)
      else Some a)"

definition gcd_bigint :: "nat \<Rightarrow> bigint \<Rightarrow> bigint \<Rightarrow> bigint option" where
  "gcd_bigint bits this b = gcd_loop bits this b"

text \<open>\<open>exponentiation\<close>: square and multiply, \<open>c\<close> starts at 1.\<close>

partial_function (option) exp_loop ::
  "nat \<Rightarrow> bigint \<Rightarrow> bigint \<Rightarrow> bigint \<Rightarrow> bigint \<Rightarrow> bigint option" where
  "exp_loop bits m a b_temp c =
     (if op_ne bits b_temp (Bigint_words bits 0)
      then exp_loop bits m (op_mod bits (op_mul bits a a) m) (op_shr bits b_temp 1)
             (if is_odd b_temp then op_mod bits (op_mul bits c a) m else c)
      else Some c)"

definition exponentiation :: "nat \<Rightarrow> bigint \<Rightarrow> bigint \<Rightarrow> bigint \<Rightarrow> bigint option" where
  "exponentiation bits this b m = exp_loop bits m this b (Bigint_words bits 1)"

text \<open>
  \<open>inverse\<close>: the loop state is \<open>(a, b_temp, x0, x0_sign, x1, x1_sign)\<close>; one pass
  computes \<open>q\<close>, \<open>qx0\<close>, the new \<open>x0\<close> with its sign, and moves the old \<open>x0\<close> into
  \<open>x1\<close>.
\<close>

partial_function (option) inverse_loop ::
  "nat \<Rightarrow> bigint \<Rightarrow> bigint \<Rightarrow> bigint \<Rightarrow> bool \<Rightarrow> bigint \<Rightarrow> bool \<Rightarrow> (bigint \<times> bool) option" where
  "inverse_loop bits a b_temp x0 x0_sign x1 x1_sign =
     (if op_gt bits a (Bigint_words bits 1) then
        inverse_loop bits b_temp (op_mod bits a b_temp)
          (if x0_sign \<noteq> x1_sign then op_add bits x1 (op_mul bits (op_div bits a b_temp) x0)
           else if op_gt bits x1 (op_mul bits (op_div bits a b_temp) x0)
                then op_sub bits x1 (op_mul bits (op_div bits a b_temp) x0)
                else op_sub bits (op_mul bits (op_div bits a b_temp) x0) x1)
          (if x0_sign \<noteq> x1_sign then x1_sign
           else if op_gt bits x1 (op_mul bits (op_div bits a b_temp) x0)
                then x1_sign else \<not> x0_sign)
          x0 x0_sign
      else Some (x1, x1_sign))"

definition inverse_bigint :: "nat \<Rightarrow> bigint \<Rightarrow> bigint \<Rightarrow> bigint option" where
  "inverse_bigint bits this b =
     (case inverse_loop bits this b (Bigint_words bits 0) False (Bigint_words bits 1) False of
        None \<Rightarrow> None
      | Some r \<Rightarrow> Some (if snd r then op_sub bits b (fst r) else fst r))"

text \<open>
  \<open>rng\<close>: every call reads fresh outputs of \<open>std::random_device\<close>. The device is a
  sequence \<open>rd\<close> of words and \<open>pos\<close> counts the outputs taken so far. The index \<open>i\<close>
  is an \<open>unsigned short\<close>, so a word count that does not fit that type is never
  reached and the loop does not end.
\<close>

definition rng :: "nat \<Rightarrow> (nat \<Rightarrow> u32) \<Rightarrow> nat \<Rightarrow> bigint \<Rightarrow> nat \<Rightarrow> (bigint \<times> nat) option" where
  "rng bits rd pos this size_max =
     (let n = (if size_max = 0 then nwords bits else size_max div 32)
      in if ushort n \<noteq> n then None
         else Some (fold (\<lambda>i st. st[i := rd (pos + i)]) [0..<n] this, pos + n))"

text \<open>
  \<open>prime_check\<close>: 100 trials; the first argument of the loop counts the trials left,
  \<open>a\<close> is declared outside the loop and keeps its words between trials.
\<close>

fun prime_loop ::
  "nat \<Rightarrow> nat \<Rightarrow> (nat \<Rightarrow> u32) \<Rightarrow> bigint \<Rightarrow> bigint \<Rightarrow> nat \<Rightarrow> bigint \<Rightarrow> bool option" where
  "prime_loop 0 bits rd this high pos a = Some True"
| "prime_loop (Suc k) bits rd this high pos a =
     (case rng bits rd pos a (num_bits bits high) of
        None \<Rightarrow> None
      | Some (a', pos') \<Rightarrow>
          (case gcd_bigint bits this a' of
             None \<Rightarrow> None
           | Some g \<Rightarrow>
               if op_ne bits g (Bigint_words bits 1) then Some False
               else
                 (case exponentiation bits a' high this of
                    None \<Rightarrow> None
                  | Some p \<Rightarrow>
                      if op_ne bits p (Bigint_words bits 1) then Some False
                      else prime_loop k bits rd this high pos' a')))"

definition prime_check :: "nat \<Rightarrow> (nat \<Rightarrow> u32) \<Rightarrow> nat \<Rightarrow> bigint \<Rightarrow> bool option" where
  "prime_check bits rd pos this =
     prime_loop 100 bits rd this (op_sub bits this (Bigint_words bits 1)) pos (Bigint_words bits 0)"

subsection \<open>Hexadecimal text\<close>

text \<open>
  \<open>isxdigit\<close> and the value of a hexadecimal digit; a C string is the list of its
  characters before the terminator.
\<close>

definition isxdigit :: "char \<Rightarrow> bool" where
  "isxdigit c = (c \<in> set ''0123456789abcdefABCDEF'')"

definition string_check :: "string \<Rightarrow> bool" where
  "string_check x = list_all isxdigit x"

definition digit_val :: "char \<Rightarrow> int" where
  "digit_val c =
     (let k = (of_char c :: int)
      in if k < 58 then k - 48 else if k < 71 then k - 55 else k - 87)"

definition hex_value :: "string \<Rightarrow> int" where
  "hex_value s = foldl (\<lambda>acc c. 16 * acc + digit_val c) 0 s"

text \<open>
  \<open>sscanf(p, "%8X", &w)\<close> and \<open>sscanf(p, "%<k>X", &w)\<close> on text made of hexadecimal
  digits only: the value of at most \<open>k\<close> digits, converted to \<open>unsigned int\<close>.
\<close>

definition scan_width :: "nat \<Rightarrow> string \<Rightarrow> u32" where
  "scan_width k p = word_of_int (hex_value (take k p))"

text \<open>
  \<open>sscanf(x, "%X", &w)\<close> on text made of hexadecimal digits only: nothing is assigned
  on empty input; otherwise the C library converts with \<open>strtoul\<close> (64 bits,
  saturating) and stores the low 32 bits.
\<close>

definition scan_all :: "string \<Rightarrow> u32 option" where
  "scan_all x =
     (if x = [] then None
      else Some (word_of_int (if hex_value x < 2 ^ 64 then hex_value x else 2 ^ 64 - 1)))"

text \<open>
  \<open>Bigint(const char *const &x)\<close>. \<open>number_of_runs\<close> is an \<open>unsigned short\<close>; run
  \<open>i\<close> reads the 8 characters that start \<open>8 * (i + 1)\<close> before the end.
\<close>

definition scan_runs :: "string \<Rightarrow> nat \<Rightarrow> bigint \<Rightarrow> error + bigint" where
  "scan_runs x number_of_runs storage =
     fold (\<lambda>i r. case r of
                    Inl e \<Rightarrow> Inl e
                  | Inr st \<Rightarrow> store st i (scan_width 8 (drop (length x - 8 - 8 * i) x)))
       [0..<number_of_runs] (Inr storage)"

definition Bigint_str :: "nat \<Rightarrow> string \<Rightarrow> error + bigint" where
  "Bigint_str bits x =
     (if \<not> string_check x then Inl DomainError
      else
        let storage = replicate (nwords bits) 0;
            number_of_runs = ushort (length x div 8)
        in if number_of_runs > 1 then
             (case scan_runs x number_of_runs storage of
                Inl e \<Rightarrow> Inl e
              | Inr st \<Rightarrow>
                  if length x mod 8 \<noteq> 0
                  then store st number_of_runs (scan_width (length x mod 8) x)
                  else Inr st)
           else
             (case scan_all x of
                None \<Rightarrow> Inr storage
              | Some v \<Rightarrow> store storage 0 v))"

text \<open>
  \<open>operator<<(std::ostream &, const Bigint &)\<close>: the result is the text written.
  \<open>std::hex\<close> prints a non-zero \<open>unsigned int\<close> in lower case without leading
  zeros (\<open>hex_plain\<close>); \<open>std::setw(8)\<close> with \<open>std::setfill('0')\<close> pads it on the
  left to its 8 digits (\<open>hex_setw8\<close>).
  \<open>size\<close> is an \<open>unsigned short\<close>; the second argument of the scan is \<open>i + 1\<close>.
\<close>

definition hexdigit :: "nat \<Rightarrow> char" where
  "hexdigit d = ''0123456789abcdef'' ! d"

fun hex_digits :: "nat \<Rightarrow> u32 \<Rightarrow> string" where
  "hex_digits 0 w = []"
| "hex_digits (Suc k) w = hexdigit (unat (drop_bit (4 * k) w AND 15)) # hex_digits k w"

definition hex_plain :: "u32 \<Rightarrow> string" where
  "hex_plain w = dropWhile (\<lambda>c. c = CHR ''0'') (hex_digits 8 w)"

definition hex_setw8 :: "u32 \<Rightarrow> string" where
  "hex_setw8 w = hex_digits 8 w"

fun out_scan :: "bigint \<Rightarrow> nat \<Rightarrow> bool \<Rightarrow> string" where
  "out_scan x 0 isnull = (if isnull then ''0'' else [])"
| "out_scan x (Suc i) isnull =
     (if isnull then
        (if x ! i \<noteq> 0 then hex_plain (x ! i) @ out_scan x i False
         else out_scan x i True)
      else hex_setw8 (x ! i) @ out_scan x i False)"

definition op_out :: "nat \<Rightarrow> bigint \<Rightarrow> string" where
  "op_out bits x = out_scan x (ushort (nwords bits)) True"

section \<open>Quantities used in the proofs\<close>

text \<open>
  The signed value of a magnitude \<open>x\<close> with its sign flag, as \<open>inverse\<close> keeps
  \<open>x0\<close> and \<open>x1\<close>; and the invariant of its loop for the inputs \<open>A0\<close> and \<open>B0\<close>:
  both coefficients are congruent to the current pair \<open>(a, b_temp)\<close>, the magnitudes
  satisfy \<open>x1 * b_temp + x0 * a = B0\<close>, and equal signs occur only in the first two
  passes.
\<close>

definition sval :: "bigint \<Rightarrow> bool \<Rightarrow> int" where
  "sval x s = (if s then - int (val x) else int (val x))"

definition inverse_inv ::
  "nat \<Rightarrow> nat \<Rightarrow> nat \<Rightarrow> bigint \<Rightarrow> bigint \<Rightarrow> bigint \<Rightarrow> bool \<Rightarrow> bigint \<Rightarrow> bool \<Rightarrow> bool" where
  "inverse_inv bits A0 B0 a b_temp x0 x0_sign x1 x1_sign =
     (length a = nwords bits \<and> length b_temp = nwords bits
      \<and> length x0 = nwords bits \<and> length x1 = nwords bits
      \<and> (sval x1 x1_sign * int A0) mod int B0 = int (val a) mod int B0
      \<and> (sval x0 x0_sign * int A0) mod int B0 = int (val b_temp) mod int B0
      \<and> val x1 * val b_temp + val x0 * val a = B0
      \<and> (x0_sign = x1_sign \<longrightarrow> val x1 \<le> 1 \<and> (val x0 = 0 \<or> val x1 = 0))
      \<and> gcd (val a) (val b_temp) = 1
      \<and> (val x0 = 0 \<or> val b_temp < val a)
      \<and> val x1 < B0
      \<and> 1 \<le> val a)"

section \<open>The constructor from an integer\<close>

lemma Bigint_ull_words: "64 \<le> bits \<Longrightarrow> Bigint_ull bits x = Inr (Bigint_words bits x)"
  by (simp add: Bigint_ull_def Bigint_words_def store_def nwords_def)

lemma length_Bigint_words [simp]: "length (Bigint_words bits x) = nwords bits"
  by (simp add: Bigint_words_def)

text \<open>
  Claim C6. With \<open>bits = 32\<close> the array has one word, and the constructor still
  executes \<open>storage[1] = x >> 32\<close>: for every 64-bit input the second write is out of
  range. The claim says that write is unreachable when \<open>bits / 32 < 2\<close>; the code
  reaches it.
\<close>

theorem Bigint_ull_32_writes_out_of_range: "Bigint_ull 32 x = Inl OutOfBounds"
  by (simp add: Bigint_ull_def store_def nwords_def)

section \<open>Comparison\<close>

lemma lt_scan_skip:
  "i \<le> k \<Longrightarrow> (\<And>j. i \<le> j \<Longrightarrow> j < k \<Longrightarrow> a ! j = 0 \<and> x ! j = 0)
     \<Longrightarrow> lt_scan a x k = lt_scan a x i"
proof (induction k)
  case 0
  then show ?case by simp
next
  case (Suc k)
  show ?case
  proof (cases "i = Suc k")
    case True
    then show ?thesis by simp
  next
    case False
    with Suc.prems(1) have ik: "i \<le> k" by simp
    have z: "a ! k = 0 \<and> x ! k = 0"
      using Suc.prems(2) [of k] ik by simp
    have "lt_scan a x k = lt_scan a x i"
      using Suc.IH [OF ik] Suc.prems(2) by simp
    with z show ?thesis by simp
  qed
qed

lemma gt_scan_skip:
  "i \<le> k \<Longrightarrow> (\<And>j. i \<le> j \<Longrightarrow> j < k \<Longrightarrow> a ! j = 0 \<and> x ! j = 0)
     \<Longrightarrow> gt_scan a x k = gt_scan a x i"
proof (induction k)
  case 0
  then show ?case by simp
next
  case (Suc k)
  show ?case
  proof (cases "i = Suc k")
    case True
    then show ?thesis by simp
  next
    case False
    with Suc.prems(1) have ik: "i \<le> k" by simp
    have z: "a ! k = 0 \<and> x ! k = 0"
      using Suc.prems(2) [of k] ik by simp
    have "gt_scan a x k = gt_scan a x i"
      using Suc.IH [OF ik] Suc.prems(2) by simp
    with z show ?thesis by simp
  qed
qed

text \<open>
  Claim C10. \<open>operator<\<close> and \<open>operator>\<close> scan from the most significant word and
  answer at the first index \<open>i\<close> where either operand has a non-zero word, by comparing
  the two words at \<open>i\<close> only. When those two words are equal both operators answer
  false, whatever the lower words are; the witness is \<open>a = 2^32 + 5\<close>,
  \<open>b = 2^32 + 7\<close> at 64 bits.
\<close>

theorem op_lt_gt_decided_at_first_nonzero_word:
  assumes "i < nwords bits"
    and "\<forall>j. i < j \<and> j < nwords bits \<longrightarrow> a ! j = 0 \<and> x ! j = 0"
    and "a ! i \<noteq> 0 \<or> x ! i \<noteq> 0"
  shows "op_lt bits a x = (a ! i < x ! i) \<and> op_gt bits a x = (a ! i > x ! i)
         \<and> (a ! i = x ! i \<longrightarrow> \<not> op_lt bits a x \<and> \<not> op_gt bits a x)"
proof -
  have le: "Suc i \<le> nwords bits"
    using assms(1) by simp
  have z: "\<And>j. Suc i \<le> j \<Longrightarrow> j < nwords bits \<Longrightarrow> a ! j = 0 \<and> x ! j = 0"
    using assms(2) by simp
  have "lt_scan a x (nwords bits) = lt_scan a x (Suc i)"
    by (rule lt_scan_skip [OF le z])
  then have l: "op_lt bits a x = (a ! i < x ! i)"
    using assms(3) by (simp add: op_lt_def)
  have "gt_scan a x (nwords bits) = gt_scan a x (Suc i)"
    by (rule gt_scan_skip [OF le z])
  then have g: "op_gt bits a x = (a ! i > x ! i)"
    using assms(3) by (simp add: op_gt_def)
  from l g show ?thesis by simp
qed

theorem op_lt_gt_both_false_example:
  "val [5, 1] = 2 ^ 32 + 5 \<and> val [7, 1] = 2 ^ 32 + 7
   \<and> \<not> op_lt 64 [5, 1] [7, 1] \<and> \<not> op_gt 64 [5, 1] [7, 1]"
proof -
  have "op_lt 64 [5, 1] [7, 1] = ([5, 1 :: u32] ! 1 < [7, 1] ! 1)
        \<and> op_gt 64 [5, 1] [7, 1] = ([5, 1 :: u32] ! 1 > [7, 1] ! 1)
        \<and> ([5, 1 :: u32] ! 1 = [7, 1] ! 1 \<longrightarrow> \<not> op_lt 64 [5, 1] [7, 1] \<and> \<not> op_gt 64 [5, 1] [7, 1])"
    by (rule op_lt_gt_decided_at_first_nonzero_word) (simp_all add: nwords_def)
  then show ?thesis by simp
qed

section \<open>Division: the early return\<close>

text \<open>
  Claim C1. When \<open>*this < x\<close> holds, \<open>operator%\<close> returns \<open>*this\<close> and so does
  \<open>operator/\<close>: the quotient the claim asks for is zero, the code returns the dividend.
  At \<open>a = 3\<close>, \<open>b = 5\<close> (64 bits) \<open>a / b\<close> is 3.
\<close>

theorem op_div_early_return_is_dividend:
  "op_lt bits a x \<Longrightarrow> op_div bits a x = a \<and> op_mod bits a x = a"
  by (simp add: op_div_def op_mod_def)

theorem op_div_3_5_is_3:
  "op_lt 64 [3, 0] [5, 0] \<and> op_div 64 [3, 0] [5, 0] = [3, 0] \<and> op_mod 64 [3, 0] [5, 0] = [3, 0]
   \<and> [3, 0] \<noteq> Bigint_words 64 0"
proof -
  have lt: "op_lt 64 [3, 0] [5, 0]"
    by code_simp
  have nz: "[3, 0] \<noteq> Bigint_words 64 0"
    by code_simp
  from op_div_early_return_is_dividend [OF lt] lt nz show ?thesis
    by simp
qed

text \<open>
  Claim C2. At \<open>a = 3\<close>, \<open>b = 5\<close> (64 bits) the code computes
  \<open>(a / b) * b + (a % b) = 3 * 5 + 3 = 18\<close>, not \<open>a = 3\<close>: the identity fails through
  the early return of \<open>operator/\<close>.
\<close>

theorem div_mod_identity_fails_3_5:
  "op_add 64 (op_mul 64 (op_div 64 [3, 0] [5, 0]) [5, 0]) (op_mod 64 [3, 0] [5, 0]) = [18, 0]"
  by code_simp

section \<open>Division by zero\<close>

text \<open>
  The code has no check for a zero divisor and raises nothing: at \<open>a = 6\<close> (64 bits)
  \<open>a / 0\<close> returns 15 and \<open>a % 0\<close> returns 6.
\<close>

theorem op_div_by_zero_returns_value:
  "op_div 64 [6, 0] (Bigint_words 64 0) = [15, 0] \<and> op_mod 64 [6, 0] (Bigint_words 64 0) = [6, 0]"
  by code_simp

section \<open>The primality test\<close>

lemma rng_below_32:
  "size_max \<noteq> 0 \<Longrightarrow> size_max < 32 \<Longrightarrow> rng bits rd pos a size_max = Some (a, pos)"
  by (simp add: rng_def ushort_def)

lemma gcd_bigint_97_0: "gcd_bigint 64 [97, 0] (Bigint_words 64 0) = Some [97, 0]"
proof -
  have "\<not> op_ne 64 (Bigint_words 64 0) (Bigint_words 64 0)"
    by code_simp
  then show ?thesis
    unfolding gcd_bigint_def by (subst gcd_loop.simps) simp
qed

text \<open>
  Claim C4. For the prime 97 at 64 bits \<open>prime_check\<close> returns false for every random
  source: \<open>high = 96\<close> has 7 significant bits, \<open>rng(7)\<close> fills \<open>7 / 32 = 0\<close> words, so
  \<open>a\<close> stays zero, \<open>gcd(97, 0)\<close> is 97 and the first trial rejects. The claim says the
  result is true on every run.
\<close>

theorem prime_check_97_false: "prime_check 64 rd pos [97, 0] = Some False"
proof -
  have high: "op_sub 64 [97, 0] (Bigint_words 64 1) = [96, 0]"
    by code_simp
  have nb: "num_bits 64 [96, 0] = 7"
    by code_simp
  have r: "rng 64 rd pos (Bigint_words 64 0) 7 = Some (Bigint_words 64 0, pos)"
    by (rule rng_below_32) simp_all
  have ne: "op_ne 64 [97, 0] (Bigint_words 64 1)"
    by code_simp
  have "prime_loop (Suc 99) 64 rd [97, 0] [96, 0] pos (Bigint_words 64 0) = Some False"
    by (simp only: prime_loop.simps nb r gcd_bigint_97_0 ne option.case prod.case if_True)
  then show ?thesis
    by (simp add: prime_check_def high)
qed

section \<open>Values of word lists\<close>

lemma val_append: "val (xs @ ys) = val xs + 2 ^ (32 * length xs) * val ys"
  by (induction xs) (simp_all add: algebra_simps power_add)

lemma val_bound: "val xs < 2 ^ (32 * length xs)"
proof (induction xs)
  case Nil
  then show ?case by simp
next
  case (Cons w ws)
  have "unat w < 2 ^ 32"
    using unsigned_less [of w] by simp
  moreover have "val ws + 1 \<le> 2 ^ (32 * length ws)"
    using Cons.IH by simp
  then have "2 ^ 32 * (val ws + 1) \<le> 2 ^ 32 * 2 ^ (32 * length ws)"
    by (rule mult_le_mono2)
  ultimately show ?case
    by (simp add: power_add)
qed

lemma val_inj: "length xs = length ys \<Longrightarrow> val xs = val ys \<Longrightarrow> xs = ys"
proof (induction xs ys rule: list_induct2)
  case Nil
  then show ?case by simp
next
  case (Cons x xs y ys)
  have lx: "unat x < 2 ^ 32" using unsigned_less [of x] by simp
  have ly: "unat y < 2 ^ 32" using unsigned_less [of y] by simp
  from Cons.prems have e: "unat x + 2 ^ 32 * val xs = unat y + 2 ^ 32 * val ys"
    by simp
  then have "(unat x + 2 ^ 32 * val xs) mod 2 ^ 32 = (unat y + 2 ^ 32 * val ys) mod 2 ^ 32"
    by simp
  with lx ly have xy: "unat x = unat y"
    by simp
  with e have "val xs = val ys"
    by simp
  with Cons.IH xy show ?case
    by (simp add: word_unat_eq_iff)
qed

lemma val_replicate_0 [simp]: "val (replicate n 0) = 0"
  by (induction n) simp_all

lemma val_take_Suc:
  "i < length xs \<Longrightarrow> val (take (Suc i) xs) = val (take i xs) + 2 ^ (32 * i) * unat (xs ! i)"
  by (simp add: take_Suc_conv_app_nth val_append)

lemma take_Suc_update:
  "i < length xs \<Longrightarrow> take (Suc i) (xs[i := v]) = take i xs @ [v]"
  by (simp add: take_Suc_conv_app_nth)

lemma replicate_update_same: "(replicate n x)[i := x] = replicate n x"
  by (cases "i < n") (simp_all add: list_update_same_conv list_update_beyond)

lemma Bigint_words_0: "Bigint_words bits 0 = replicate (nwords bits) 0"
  by (simp add: Bigint_words_def replicate_update_same)

lemma val_Bigint_words_1: "32 \<le> bits \<Longrightarrow> val (Bigint_words bits 1) = 1"
proof -
  assume "32 \<le> bits"
  then obtain m where m: "nwords bits = Suc m"
    by (cases "nwords bits") (simp_all add: nwords_def)
  have "Bigint_words bits 1 = 1 # replicate m 0"
    by (cases m) (simp_all add: Bigint_words_def m)
  then show ?thesis by simp
qed

text \<open>One pass of the addition and subtraction loops, on the words.\<close>

lemma unat_u32_less: "unat (w :: u32) < 4294967296"
  using unsigned_less [of w] by simp

lemma unat_ucast_u32_u64 [simp]: "unat (ucast (w :: u32) :: u64) = unat w"
proof -
  have "unat w < 2 ^ 64"
    using unat_u32_less [of w] by simp
  then show ?thesis
    by (simp add: unsigned_ucast_eq take_bit_nat_eq_self)
qed

lemma unat_ucast_u64_u32: "unat (ucast (t :: u64) :: u32) = unat t mod 4294967296"
  by (simp add: unsigned_ucast_eq take_bit_eq_mod)

lemma unat_drop_bit_32: "unat (drop_bit 32 (t :: u64)) = unat t div 4294967296"
  by (simp only: unat_drop_bit_eq) (simp add: drop_bit_eq_div)

lemma unat_drop_bit_63: "unat (drop_bit 63 (t :: u64)) = unat t div 9223372036854775808"
  by (simp only: unat_drop_bit_eq) (simp add: drop_bit_eq_div)

lemma add_word_step:
  fixes ai xi c :: u32
  defines "t \<equiv> (ucast ai :: u64) + ucast xi + ucast c"
  shows "unat (ucast t :: u32) + 4294967296 * unat (ucast (drop_bit 32 t) :: u32) = unat ai + unat xi + unat c"
    and "unat c \<le> 1 \<Longrightarrow> unat (ucast (drop_bit 32 t) :: u32) \<le> 1"
proof -
  have la: "unat ai < 4294967296" by (rule unat_u32_less)
  have lx: "unat xi < 4294967296" by (rule unat_u32_less)
  have lc: "unat c < 4294967296" by (rule unat_u32_less)
  have ut: "unat t = unat ai + unat xi + unat c"
    using la lx lc unfolding t_def by (simp add: unat_word_ariths)
  have hi: "unat (ucast (drop_bit 32 t) :: u32) = unat t div 4294967296"
    using la lx lc ut by (simp add: unat_ucast_u64_u32 unat_drop_bit_32)
  show "unat (ucast t :: u32) + 4294967296 * unat (ucast (drop_bit 32 t) :: u32) = unat ai + unat xi + unat c"
    using hi ut by (simp add: unat_ucast_u64_u32)
  show "unat c \<le> 1 \<Longrightarrow> unat (ucast (drop_bit 32 t) :: u32) \<le> 1"
    using hi ut la lx by simp
qed

lemma sub_word_step:
  fixes ai xi b :: u32
  assumes b: "unat b \<le> 1"
  defines "t \<equiv> (ucast ai :: u64) - (ucast xi + ucast b)"
  shows "int (unat (ucast t :: u32)) - 4294967296 * int (unat (ucast (drop_bit 63 t) :: u32))
           = int (unat ai) - int (unat xi) - int (unat b)"
    and "unat (ucast (drop_bit 63 t) :: u32) \<le> 1"
proof -
  have la: "unat ai < 4294967296" by (rule unat_u32_less)
  have lx: "unat xi < 4294967296" by (rule unat_u32_less)
  have us: "unat ((ucast xi :: u64) + ucast b) = unat xi + unat b"
    using lx b by (simp add: unat_word_ariths)
  have ut: "unat t = (if unat xi + unat b \<le> unat ai then unat ai - (unat xi + unat b)
                      else unat ai + 18446744073709551616 - (unat xi + unat b))"
    unfolding t_def by (simp add: unat_sub_if_size us word_size)
  have hi: "unat (ucast (drop_bit 63 t) :: u32) = unat t div 9223372036854775808"
  proof -
    have "unat (drop_bit 63 t) = unat t div 9223372036854775808"
      by (rule unat_drop_bit_63)
    moreover have "unat t < 18446744073709551616"
      using unsigned_less [of t] by simp
    ultimately show ?thesis
      by (simp add: unat_ucast_u64_u32)
  qed
  show "unat (ucast (drop_bit 63 t) :: u32) \<le> 1"
  proof -
    have "unat t < 18446744073709551616"
      using unsigned_less [of t] by simp
    then show ?thesis using hi by simp
  qed
  show "int (unat (ucast t :: u32)) - 4294967296 * int (unat (ucast (drop_bit 63 t) :: u32))
           = int (unat ai) - int (unat xi) - int (unat b)"
  proof (cases "unat xi + unat b \<le> unat ai")
    case True
    then have t: "unat t = unat ai - (unat xi + unat b)"
      using ut by simp
    then have "unat t < 4294967296"
      using la by simp
    then show ?thesis
      using t True hi by (simp add: unat_ucast_u64_u32)
  next
    case False
    then have t: "unat t = unat ai + 18446744073709551616 - (unat xi + unat b)"
      using ut by simp
    define p where "p = 4294967296 + unat ai - (unat xi + unat b)"
    have p: "p < 4294967296"
      using False lx b by (simp add: p_def)
    have tp: "unat t = 4294967295 * 4294967296 + p"
      using t False lx b by (simp add: p_def)
    have h1: "unat t div 9223372036854775808 = 1"
      using tp p by simp
    have "unat t mod 4294967296 = p mod 4294967296"
      unfolding tp by (simp only: mod_mult_self3)
    with p have h2: "unat t mod 4294967296 = p"
      by simp
    have "int p = 4294967296 + int (unat ai) - int (unat xi) - int (unat b)"
      using False lx b by (simp add: p_def)
    then show ?thesis
      using h1 h2 hi by (simp add: unat_ucast_u64_u32)
  qed
qed

section \<open>Addition and subtraction\<close>

lemma pow32_Suc: "(2 :: nat) ^ (32 * Suc k) = 2 ^ (32 * k) * 4294967296"
  by (simp add: power_add)

lemma pow32_Suc_int: "(2 :: int) ^ (32 * Suc k) = 2 ^ (32 * k) * 4294967296"
  by (simp add: power_add)

lemma add_fold:
  assumes "k \<le> length a" and "k \<le> length x" and "k \<le> length res"
  shows "\<exists>c r. fold (add_step a x) [0..<k] (c0, res) = (c, r) \<and> length r = length res
           \<and> val (take k r) + 2 ^ (32 * k) * unat c = val (take k a) + val (take k x) + unat c0
           \<and> (unat c0 \<le> 1 \<longrightarrow> unat c \<le> 1)"
  using assms
proof (induction k)
  case 0
  then show ?case by simp
next
  case (Suc k)
  then obtain c r where f: "fold (add_step a x) [0..<k] (c0, res) = (c, r)"
    and len: "length r = length res"
    and v: "val (take k r) + 2 ^ (32 * k) * unat c = val (take k a) + val (take k x) + unat c0"
    and cb: "unat c0 \<le> 1 \<longrightarrow> unat c \<le> 1"
    by auto
  define t where "t = (ucast (a ! k) :: u64) + ucast (x ! k) + ucast c"
  define w where "w = (ucast t :: u32)"
  define c' where "c' = (ucast (drop_bit 32 t) :: u32)"
  have st: "add_step a x k (c, r) = (c', r[k := w])"
    by (simp add: add_step_def t_def w_def c'_def Let_def)
  have ws: "unat w + 4294967296 * unat c' = unat (a ! k) + unat (x ! k) + unat c"
    unfolding w_def c'_def t_def by (rule add_word_step(1))
  have cs: "unat c \<le> 1 \<Longrightarrow> unat c' \<le> 1"
    unfolding c'_def t_def by (rule add_word_step(2))
  have kr: "k < length r" using Suc.prems len by simp
  have tr: "val (take (Suc k) (r[k := w])) = val (take k r) + 2 ^ (32 * k) * unat w"
    using kr by (simp add: take_Suc_update val_append)
  have ta: "val (take (Suc k) a) = val (take k a) + 2 ^ (32 * k) * unat (a ! k)"
    using Suc.prems by (simp add: val_take_Suc)
  have tx: "val (take (Suc k) x) = val (take k x) + 2 ^ (32 * k) * unat (x ! k)"
    using Suc.prems by (simp add: val_take_Suc)
  have "val (take (Suc k) (r[k := w])) + 2 ^ (32 * Suc k) * unat c'
          = val (take k r) + 2 ^ (32 * k) * (unat w + 4294967296 * unat c')"
    by (simp only: tr pow32_Suc) (simp add: algebra_simps)
  also have "\<dots> = val (take k r) + 2 ^ (32 * k) * unat c + 2 ^ (32 * k) * (unat (a ! k) + unat (x ! k))"
    by (simp only: ws) (simp add: algebra_simps)
  also have "\<dots> = val (take (Suc k) a) + val (take (Suc k) x) + unat c0"
    using v by (simp add: ta tx algebra_simps)
  finally have v': "val (take (Suc k) (r[k := w])) + 2 ^ (32 * Suc k) * unat c'
          = val (take (Suc k) a) + val (take (Suc k) x) + unat c0" .
  have "fold (add_step a x) [0..<Suc k] (c0, res) = (c', r[k := w])"
    by (simp add: f st)
  moreover have "length (r[k := w]) = length res"
    using len by simp
  ultimately show ?case
    using v' cb cs by blast
qed

lemma op_add_val:
  assumes "length a = nwords bits" and "length x = nwords bits"
  shows "length (op_add bits a x) = nwords bits"
    and "val (op_add bits a x) = (val a + val x) mod 2 ^ (32 * nwords bits)"
proof -
  obtain c r where f: "fold (add_step a x) [0..<nwords bits] (0, Bigint_words bits 0) = (c, r)"
    and len: "length r = length (Bigint_words bits 0)"
    and v: "val (take (nwords bits) r) + 2 ^ (32 * nwords bits) * unat c
              = val (take (nwords bits) a) + val (take (nwords bits) x) + unat (0 :: u32)"
    using add_fold [of "nwords bits" a x "Bigint_words bits 0" 0] assms by auto
  have r: "op_add bits a x = r"
    by (simp add: op_add_def f)
  show "length (op_add bits a x) = nwords bits"
    using r len by simp
  have "val r + 2 ^ (32 * nwords bits) * unat c = val a + val x"
    using v len assms by simp
  then have "(val a + val x) mod 2 ^ (32 * nwords bits) = val r mod 2 ^ (32 * nwords bits)"
    by (metis mod_mult_self2)
  moreover have "val r < 2 ^ (32 * nwords bits)"
    using val_bound [of r] len by simp
  ultimately show "val (op_add bits a x) = (val a + val x) mod 2 ^ (32 * nwords bits)"
    using r by simp
qed

lemma sub_fold:
  assumes "k \<le> length a" and "k \<le> length x" and "k \<le> length res" and "unat b0 \<le> 1"
  shows "\<exists>b r. fold (sub_step a x) [0..<k] (b0, res) = (b, r) \<and> length r = length res
           \<and> int (val (take k r)) - 2 ^ (32 * k) * int (unat b)
                 = int (val (take k a)) - int (val (take k x)) - int (unat b0)
           \<and> unat b \<le> 1"
  using assms
proof (induction k)
  case 0
  then show ?case by simp
next
  case (Suc k)
  then obtain b r where f: "fold (sub_step a x) [0..<k] (b0, res) = (b, r)"
    and len: "length r = length res"
    and v: "int (val (take k r)) - 2 ^ (32 * k) * int (unat b)
                 = int (val (take k a)) - int (val (take k x)) - int (unat b0)"
    and bb: "unat b \<le> 1"
    by auto
  define t where "t = (ucast (a ! k) :: u64) - (ucast (x ! k) + ucast b)"
  define w where "w = (ucast t :: u32)"
  define b' where "b' = (ucast (drop_bit 63 t) :: u32)"
  have st: "sub_step a x k (b, r) = (b', r[k := w])"
    by (simp add: sub_step_def t_def w_def b'_def Let_def)
  have ws: "int (unat w) - 4294967296 * int (unat b') = int (unat (a ! k)) - int (unat (x ! k)) - int (unat b)"
    unfolding w_def b'_def t_def by (rule sub_word_step(1) [OF bb])
  have bs: "unat b' \<le> 1"
    unfolding b'_def t_def by (rule sub_word_step(2) [OF bb])
  have kr: "k < length r" using Suc.prems len by simp
  have tr: "val (take (Suc k) (r[k := w])) = val (take k r) + 2 ^ (32 * k) * unat w"
    using kr by (simp add: take_Suc_update val_append)
  have ta: "val (take (Suc k) a) = val (take k a) + 2 ^ (32 * k) * unat (a ! k)"
    using Suc.prems by (simp add: val_take_Suc)
  have tx: "val (take (Suc k) x) = val (take k x) + 2 ^ (32 * k) * unat (x ! k)"
    using Suc.prems by (simp add: val_take_Suc)
  have "int (val (take (Suc k) (r[k := w]))) - 2 ^ (32 * Suc k) * int (unat b')
          = int (val (take k r)) + 2 ^ (32 * k) * (int (unat w) - 4294967296 * int (unat b'))"
    by (simp only: tr pow32_Suc_int) (simp add: algebra_simps)
  also have "\<dots> = int (val (take k r)) - 2 ^ (32 * k) * int (unat b)
                     + 2 ^ (32 * k) * (int (unat (a ! k)) - int (unat (x ! k)))"
    by (simp only: ws) (simp add: algebra_simps)
  also have "\<dots> = int (val (take (Suc k) a)) - int (val (take (Suc k) x)) - int (unat b0)"
    using v by (simp add: ta tx algebra_simps)
  finally have v': "int (val (take (Suc k) (r[k := w]))) - 2 ^ (32 * Suc k) * int (unat b')
          = int (val (take (Suc k) a)) - int (val (take (Suc k) x)) - int (unat b0)" .
  have "fold (sub_step a x) [0..<Suc k] (b0, res) = (b', r[k := w])"
    by (simp add: f st)
  moreover have "length (r[k := w]) = length res"
    using len by simp
  ultimately show ?case
    using v' bs by blast
qed

lemma op_sub_val:
  assumes "length a = nwords bits" and "length x = nwords bits"
  shows "length (op_sub bits a x) = nwords bits"
    and "int (val (op_sub bits a x)) = (int (val a) - int (val x)) mod 2 ^ (32 * nwords bits)"
    and "val x \<le> val a \<Longrightarrow> val (op_sub bits a x) = val a - val x"
    and "val a < val x \<Longrightarrow> val (op_sub bits a x) = 2 ^ (32 * nwords bits) + val a - val x"
proof -
  obtain b r where f: "fold (sub_step a x) [0..<nwords bits] (0, Bigint_words bits 0) = (b, r)"
    and len: "length r = length (Bigint_words bits 0)"
    and v: "int (val (take (nwords bits) r)) - 2 ^ (32 * nwords bits) * int (unat b)
              = int (val (take (nwords bits) a)) - int (val (take (nwords bits) x)) - int (unat (0 :: u32))"
    and bb: "unat b \<le> 1"
    using sub_fold [of "nwords bits" a x "Bigint_words bits 0" 0] assms by auto
  have r: "op_sub bits a x = r"
    by (simp add: op_sub_def f)
  show "length (op_sub bits a x) = nwords bits"
    using r len by simp
  have e: "int (val r) = int (val a) - int (val x) + 2 ^ (32 * nwords bits) * int (unat b)"
    using v len assms by simp
  have lt: "int (val r) < 2 ^ (32 * nwords bits)"
    using val_bound [of r] len by (metis length_Bigint_words of_nat_less_iff of_nat_numeral of_nat_power)
  have "(int (val a) - int (val x)) mod 2 ^ (32 * nwords bits) = int (val r) mod 2 ^ (32 * nwords bits)"
    unfolding e by (metis mod_mult_self2)
  then show m: "int (val (op_sub bits a x)) = (int (val a) - int (val x)) mod 2 ^ (32 * nwords bits)"
    using lt r by simp
  have la: "int (val a) < 2 ^ (32 * nwords bits)"
    using val_bound [of a] assms by (metis of_nat_less_iff of_nat_numeral of_nat_power)
  have lx: "int (val x) < 2 ^ (32 * nwords bits)"
    using val_bound [of x] assms by (metis of_nat_less_iff of_nat_numeral of_nat_power)
  show "val (op_sub bits a x) = val a - val x" if "val x \<le> val a"
  proof -
    have "(int (val a) - int (val x)) mod 2 ^ (32 * nwords bits) = int (val a) - int (val x)"
      using that la by (intro mod_pos_pos_trivial) linarith+
    with m have "int (val (op_sub bits a x)) = int (val a) - int (val x)"
      by simp
    with that show ?thesis by linarith
  qed
  show "val (op_sub bits a x) = 2 ^ (32 * nwords bits) + val a - val x" if "val a < val x"
  proof -
    have "(int (val a) - int (val x)) mod 2 ^ (32 * nwords bits)
            = (int (val a) - int (val x) + 2 ^ (32 * nwords bits)) mod 2 ^ (32 * nwords bits)"
      by simp
    also have "\<dots> = int (val a) - int (val x) + 2 ^ (32 * nwords bits)"
      using that la lx by (intro mod_pos_pos_trivial) linarith+
    finally have "int (val (op_sub bits a x)) = int (val a) - int (val x) + 2 ^ (32 * nwords bits)"
      using m by simp
    moreover have "int (2 ^ (32 * nwords bits) + val a - val x) = int (val a) - int (val x) + 2 ^ (32 * nwords bits)"
      using that val_bound [of x] assms by (simp add: of_nat_diff)
    ultimately show ?thesis by linarith
  qed
qed

lemma op_eq_iff:
  "length a = nwords bits \<Longrightarrow> length x = nwords bits \<Longrightarrow> op_eq bits a x = (a = x)"
  by (auto simp add: op_eq_def list_all_iff list_eq_iff_nth_eq)

lemma op_ne_iff:
  "length a = nwords bits \<Longrightarrow> length x = nwords bits \<Longrightarrow> op_ne bits a x = (a \<noteq> x)"
  by (auto simp add: op_ne_def list_ex_iff list_eq_iff_nth_eq)







section \<open>Shifts\<close>

lemma bit_add_shift:
  fixes u m :: nat
  assumes "u < 2 ^ n"
  shows "bit (u + 2 ^ n * m) k = (if k < n then bit u k else bit m (k - n))"
proof (cases "k < n")
  case True
  then obtain d where d: "n = k + Suc d"
    using less_iff_Suc_add by auto
  have e: "u + 2 ^ n * m = u + 2 ^ k * (2 * 2 ^ d * m)"
    by (simp add: d power_add algebra_simps)
  have "(u + 2 ^ k * (2 * 2 ^ d * m)) div 2 ^ k = 2 * 2 ^ d * m + u div 2 ^ k"
    by (rule div_mult_self2) simp
  then have "odd ((u + 2 ^ n * m) div 2 ^ k) = odd (u div 2 ^ k)"
    by (simp only: e) simp
  then show ?thesis
    using True by (simp add: bit_iff_odd)
next
  case False
  then obtain d where d: "k = n + d"
    using le_Suc_ex not_less by blast
  have "(u + 2 ^ n * m) div 2 ^ k = ((u + 2 ^ n * m) div 2 ^ n) div 2 ^ d"
    by (simp add: d power_add div_mult2_eq)
  also have "(u + 2 ^ n * m) div 2 ^ n = m"
    using assms by simp
  finally show ?thesis
    using False by (simp add: bit_iff_odd d)
qed

lemma bit_add_shift32:
  fixes u m :: nat
  shows "u < 4294967296 \<Longrightarrow>
    bit (u + 4294967296 * m) k = (if k < 32 then bit u k else bit m (k - 32))"
  using bit_add_shift [of u 32 m k] by simp

lemma bit_val_at:
  "r < 32 \<Longrightarrow> bit (val a) (32 * q + r) = (q < length a \<and> bit (a ! q) r)"
proof (induction a arbitrary: q)
  case Nil
  then show ?case by simp
next
  case (Cons w ws)
  have lw: "unat w < 4294967296"
    by (rule unat_u32_less)
  show ?case
  proof (cases q)
    case 0
    then show ?thesis
      using Cons.prems lw by (simp add: bit_add_shift32 bit_unsigned_iff)
  next
    case (Suc q')
    have "bit (val (w # ws)) (32 * q + r) = bit (val ws) (32 * q' + r)"
      using lw by (simp add: bit_add_shift32 Suc)
    then show ?thesis
      using Cons.IH [OF Cons.prems, of q'] by (simp add: Suc)
  qed
qed

lemma val_eq_bitI:
  assumes "\<And>q r. r < 32 \<Longrightarrow> bit (val a) (32 * q + r) = bit v (32 * q + r)"
  shows "val a = v"
proof (rule bit_eqI)
  fix k :: nat
  have "k = 32 * (k div 32) + k mod 32"
    by simp
  then show "bit (val a) k = bit v k"
    using assms [of "k mod 32" "k div 32"] by simp
qed

lemma fold_update_length:
  "length (fold (\<lambda>i ret. ret[i := f i]) is r) = length r"
  by (induction "is" arbitrary: r) simp_all

lemma fold_update_nth:
  "j < length r \<Longrightarrow>
     fold (\<lambda>i ret. ret[i := f i]) is r ! j = (if j \<in> set is then f j else r ! j)"
proof (induction "is" arbitrary: r)
  case Nil
  then show ?case by simp
next
  case (Cons i "is")
  have "fold (\<lambda>i ret. ret[i := f i]) (i # is) r ! j
          = (if j \<in> set is then f j else r[i := f i] ! j)"
    using Cons.IH [of "r[i := f i]"] Cons.prems by simp
  then show ?case
    using Cons.prems by (auto simp add: nth_list_update)
qed

lemma length_op_shl: "length (op_shl bits a s) = nwords bits"
  by (simp add: op_shl_def Let_def fold_update_length)

lemma length_op_shr: "length (op_shr bits a s) = nwords bits"
  by (simp add: op_shr_def Let_def fold_update_length)

lemma nwords_mult: "32 dvd bits \<Longrightarrow> 32 * nwords bits = bits"
  by (simp add: nwords_def)

lemma shift_div_less: "32 dvd bits \<Longrightarrow> s < bits \<Longrightarrow> s div 32 < nwords bits"
proof -
  assume "32 dvd bits" and s: "s < bits"
  then obtain k where k: "bits = k * 32"
    by (auto simp add: dvd_def)
  with s have "s div 32 < k"
    by (simp add: less_mult_imp_div_less)
  then show ?thesis
    by (simp add: nwords_def k)
qed

lemma op_shl_nth:
  assumes "s < bits" and "32 dvd bits" and "j < nwords bits"
  shows "op_shl bits a s ! j =
           (if s div 32 < j then
              (if s mod 32 = 0 then a ! (j - s div 32)
               else push_bit (s mod 32) (a ! (j - s div 32))
                      OR drop_bit (32 - s mod 32) (a ! (j - s div 32 - 1)))
            else if j = s div 32 then push_bit (s mod 32) (a ! 0)
            else 0)"
proof -
  have fs: "s div 32 < nwords bits"
    using assms(2,1) by (rule shift_div_less)
  have m: "j \<in> set (rev [Suc (s div 32)..<nwords bits]) \<longleftrightarrow> s div 32 < j"
    using assms(3) by auto
  show ?thesis
    using assms(1,3) fs
    by (simp add: op_shl_def Let_def nth_list_update fold_update_length fold_update_nth m
        Bigint_words_0 del: set_rev set_upt)
qed

lemma op_shr_nth:
  assumes "s < bits" and "32 dvd bits" and "j < nwords bits"
  shows "op_shr bits a s ! j =
           (if s mod 32 = 0 then
              (if j < nwords bits - s div 32 then a ! (j + s div 32) else 0)
            else if j < nwords bits - s div 32 - 1 then
              drop_bit (s mod 32) (a ! (j + s div 32))
                OR push_bit (32 - s mod 32) (a ! (j + s div 32 + 1))
            else if j = nwords bits - s div 32 - 1 then
              drop_bit (s mod 32) (a ! (nwords bits - s div 32 - 1 + s div 32))
            else 0)"
proof -
  have fs: "s div 32 < nwords bits"
    using assms(2,1) by (rule shift_div_less)
  show ?thesis
    using assms(1,3) fs
    by (auto simp add: op_shr_def Let_def nth_list_update fold_update_length fold_update_nth
        Bigint_words_0)
qed


lemma bit_u32_high: "32 \<le> k \<Longrightarrow> \<not> bit (w :: u32) k"
  using bit_imp_le_length [of w k] by auto

lemma op_shl_val_lt:
  assumes s: "s < bits" and d: "32 dvd bits" and la: "length a = nwords bits"
  shows "val (op_shl bits a s) = take_bit bits (push_bit s (val a))"
proof (rule val_eq_bitI)
  fix q r :: nat
  assume r: "r < 32"
  define fs where "fs = s div 32"
  define l where "l = s mod 32"
  have sfl: "s = 32 * fs + l" and l: "l < 32"
    by (simp_all add: fs_def l_def)
  have fs: "fs < nwords bits"
    unfolding fs_def using d s by (rule shift_div_less)
  have nb: "32 * nwords bits = bits"
    using d by (rule nwords_mult)
  have len: "length (op_shl bits a s) = nwords bits"
    by (rule length_op_shl)
  have lhs: "bit (val (op_shl bits a s)) (32 * q + r) = (q < nwords bits \<and> bit (op_shl bits a s ! q) r)"
    using r by (simp add: bit_val_at len)
  have rhs: "bit (take_bit bits (push_bit s (val a))) (32 * q + r)
               = (q < nwords bits \<and> s \<le> 32 * q + r \<and> bit (val a) (32 * q + r - s))"
    using r nb by (auto simp add: bit_take_bit_iff bit_push_bit_iff)
  show "bit (val (op_shl bits a s)) (32 * q + r) = bit (take_bit bits (push_bit s (val a))) (32 * q + r)"
  proof (cases "q < nwords bits")
    case False
    then show ?thesis by (simp add: lhs rhs)
  next
    case qn: True
    note nth = op_shl_nth [OF s d qn, of a, folded fs_def l_def]
    consider (below) "q < fs" | (at) "q = fs" | (above) "fs < q"
      by linarith
    then show ?thesis
    proof cases
      case below
      then have "\<not> s \<le> 32 * q + r"
        using r by (simp add: sfl)
      with below show ?thesis
        by (simp add: lhs rhs nth)
    next
      case at
      have sle: "(s \<le> 32 * q + r) = (l \<le> r)"
        by (simp add: at sfl)
      have "bit (val a) (32 * 0 + (r - l)) = (0 < length a \<and> bit (a ! 0) (r - l))"
        using r by (intro bit_val_at) simp
      moreover have "l \<le> r \<Longrightarrow> 32 * q + r - s = 32 * 0 + (r - l)"
        by (simp add: at sfl)
      ultimately have v: "l \<le> r \<Longrightarrow> bit (val a) (32 * q + r - s) = bit (a ! 0) (r - l)"
        using fs la by simp
      have w: "op_shl bits a s ! q = push_bit l (a ! 0)"
        using nth by (simp add: at)
      show ?thesis
        using qn r v by (auto simp add: lhs rhs w sle bit_push_bit_iff)
    next
      case above
      then obtain e where e: "q = fs + Suc e"
        using less_iff_Suc_add by auto
      have qa: "Suc e < length a"
        using qn la by (simp add: e)
      have sle: "s \<le> 32 * q + r"
        using l by (simp add: e sfl)
      have w: "op_shl bits a s ! q =
                 (if l = 0 then a ! Suc e
                  else push_bit l (a ! Suc e) OR drop_bit (32 - l) (a ! e))"
        using nth above by (simp add: e)
      show ?thesis
      proof (cases "l \<le> r")
        case True
        have "32 * q + r - s = 32 * Suc e + (r - l)"
          using True by (simp add: e sfl)
        moreover have "bit (val a) (32 * Suc e + (r - l)) = (Suc e < length a \<and> bit (a ! Suc e) (r - l))"
          using r by (intro bit_val_at) simp
        ultimately have v: "bit (val a) (32 * q + r - s) = bit (a ! Suc e) (r - l)"
          using qa by simp
        have hi: "\<not> bit (a ! e) (32 - l + r)"
          using True l by (intro bit_u32_high) simp
        show ?thesis
          using qn r True hi
          by (auto simp add: lhs rhs w v sle bit_push_bit_iff bit_or_iff bit_drop_bit_eq)
      next
        case False
        then have lr: "r < l" by simp
        have "32 * q + r - s = 32 * e + (32 + r - l)"
          using lr l by (simp add: e sfl)
        moreover have "bit (val a) (32 * e + (32 + r - l)) = (e < length a \<and> bit (a ! e) (32 + r - l))"
          using lr by (intro bit_val_at) simp
        ultimately have v: "bit (val a) (32 * q + r - s) = bit (a ! e) (32 + r - l)"
          using qa by simp
        have "32 - l + r = 32 + r - l"
          using l by simp
        then show ?thesis
          using qn r lr
          by (auto simp add: lhs rhs w v sle bit_push_bit_iff bit_or_iff bit_drop_bit_eq)
      qed
    qed
  qed
qed

lemma op_shr_val_lt:
  assumes s: "s < bits" and d: "32 dvd bits" and la: "length a = nwords bits"
  shows "val (op_shr bits a s) = drop_bit s (val a)"
proof (rule val_eq_bitI)
  fix q r :: nat
  assume r: "r < 32"
  define fs where "fs = s div 32"
  define l where "l = s mod 32"
  have sfl: "s = 32 * fs + l" and l: "l < 32"
    by (simp_all add: fs_def l_def)
  have fs: "fs < nwords bits"
    unfolding fs_def using d s by (rule shift_div_less)
  have len: "length (op_shr bits a s) = nwords bits"
    by (rule length_op_shr)
  have lhs: "bit (val (op_shr bits a s)) (32 * q + r) = (q < nwords bits \<and> bit (op_shr bits a s ! q) r)"
    using r by (simp add: bit_val_at len)
  have rhs: "bit (drop_bit s (val a)) (32 * q + r) = bit (val a) (s + (32 * q + r))"
    by (simp add: bit_drop_bit_eq)
  have lo: "l + r < 32 \<Longrightarrow>
      bit (val a) (s + (32 * q + r)) = (q + fs < nwords bits \<and> bit (a ! (q + fs)) (l + r))"
  proof -
    assume b: "l + r < 32"
    have e: "s + (32 * q + r) = 32 * (q + fs) + (l + r)"
      by (simp add: sfl)
    have "bit (val a) (32 * (q + fs) + (l + r)) = (q + fs < length a \<and> bit (a ! (q + fs)) (l + r))"
      using b by (rule bit_val_at)
    then show ?thesis
      unfolding e la .
  qed
  have hi: "32 \<le> l + r \<Longrightarrow>
      bit (val a) (s + (32 * q + r)) = (q + fs + 1 < nwords bits \<and> bit (a ! (q + fs + 1)) (l + r - 32))"
  proof -
    assume b: "32 \<le> l + r"
    have e: "s + (32 * q + r) = 32 * (q + fs + 1) + (l + r - 32)"
      using b by (simp add: sfl)
    have "bit (val a) (32 * (q + fs + 1) + (l + r - 32))
                     = (q + fs + 1 < length a \<and> bit (a ! (q + fs + 1)) (l + r - 32))"
      using l r by (intro bit_val_at) simp
    then show ?thesis
      unfolding e la .
  qed
  show "bit (val (op_shr bits a s)) (32 * q + r) = bit (drop_bit s (val a)) (32 * q + r)"
  proof (cases "q < nwords bits")
    case False
    then show ?thesis
      using lo hi by (cases "l + r < 32") (simp_all add: lhs rhs)
  next
    case qn: True
    note nth = op_shr_nth [OF s d qn, of a, folded fs_def l_def]
    show ?thesis
    proof (cases "l = 0")
      case True
      then have "bit (val a) (s + (32 * q + r)) = (q + fs < nwords bits \<and> bit (a ! (q + fs)) r)"
        using lo r by simp
      then show ?thesis
        using True qn nth by (auto simp add: lhs rhs)
    next
      case lnz: False
      consider (inner) "q < nwords bits - fs - 1" | (last) "q = nwords bits - fs - 1"
        | (beyond) "nwords bits - fs - 1 < q"
        by linarith
      then show ?thesis
      proof cases
        case inner
        have w: "op_shr bits a s ! q = drop_bit l (a ! (q + fs)) OR push_bit (32 - l) (a ! (q + fs + 1))"
          using nth lnz inner by simp
        have in1: "q + fs < nwords bits" and in2: "q + fs + 1 < nwords bits"
          using inner by simp_all
        show ?thesis
        proof (cases "l + r < 32")
          case True
          then have "\<not> 32 - l \<le> r" by simp
          then show ?thesis
            using qn True lo in1
            by (simp add: lhs rhs w bit_or_iff bit_drop_bit_eq bit_push_bit_iff)
        next
          case False
          then have b: "32 \<le> l + r" by simp
          then have "\<not> bit (a ! (q + fs)) (l + r)"
            by (rule bit_u32_high)
          moreover have "r - (32 - l) = l + r - 32"
            using l b by simp
          moreover have "32 - l \<le> r"
            using b by simp
          ultimately show ?thesis
            using qn hi [OF b] in2 r
            by (simp add: lhs rhs w bit_or_iff bit_drop_bit_eq bit_push_bit_iff)
        qed
      next
        case last
        have w: "op_shr bits a s ! q = drop_bit l (a ! (q + fs))"
          using nth lnz last by simp
        have in1: "q + fs < nwords bits" and in2: "\<not> q + fs + 1 < nwords bits"
          using last fs by simp_all
        show ?thesis
        proof (cases "l + r < 32")
          case True
          then show ?thesis
            using qn lo in1
            by (simp add: lhs rhs w bit_drop_bit_eq)
        next
          case False
          then have b: "32 \<le> l + r" by simp
          then have "\<not> bit (a ! (q + fs)) (l + r)"
            by (rule bit_u32_high)
          then show ?thesis
            using qn hi [OF b] in2
            by (simp add: lhs rhs w bit_drop_bit_eq)
        qed
      next
        case beyond
        have w: "op_shr bits a s ! q = 0"
          using nth lnz beyond by simp
        have in1: "\<not> q + fs < nwords bits" and in2: "\<not> q + fs + 1 < nwords bits"
          using beyond by simp_all
        show ?thesis
          using lo hi in1 in2 by (cases "l + r < 32") (simp_all add: lhs rhs w)
      qed
    qed
  qed
qed

lemma op_shl_val:
  assumes d: "32 dvd bits" and la: "length a = nwords bits"
  shows "val (op_shl bits a s) = (val a * 2 ^ s) mod 2 ^ bits"
proof (cases "s < bits")
  case True
  then show ?thesis
    using op_shl_val_lt [OF True d la] by (simp add: take_bit_eq_mod push_bit_eq_mult)
next
  case False
  then obtain e where e: "s = bits + e"
    using le_Suc_ex not_less by blast
  have eq: "val a * 2 ^ s = 2 ^ bits * (val a * 2 ^ e)"
    by (simp add: e power_add)
  have "(val a * 2 ^ s) mod 2 ^ bits = 0"
    by (simp only: eq mod_mult_self1_is_0)
  then show ?thesis
    using False by (simp add: op_shl_def Bigint_words_0)
qed

lemma op_shr_val:
  assumes d: "32 dvd bits" and la: "length a = nwords bits"
  shows "val (op_shr bits a s) = val a div 2 ^ s"
proof (cases "s < bits")
  case True
  then show ?thesis
    using op_shr_val_lt [OF True d la] by (simp add: drop_bit_eq_div)
next
  case False
  have "val a < 2 ^ (32 * nwords bits)"
    using val_bound [of a] la by simp
  also have "32 * nwords bits = bits"
    using d by (rule nwords_mult)
  also have "(2 :: nat) ^ bits \<le> 2 ^ s"
    using False by (intro power_increasing) simp_all
  finally have "val a div 2 ^ s = 0"
    by simp
  then show ?thesis
    using False by (simp add: op_shr_def Bigint_words_0)
qed




section \<open>Significant bits\<close>

lemma val_zero_iff: "val xs = 0 \<longleftrightarrow> (\<forall>w \<in> set xs. w = 0)"
  by (induction xs) (auto simp add: unat_eq_0)

lemma val_top:
  assumes "i < length a" and "\<And>j. i < j \<Longrightarrow> j < length a \<Longrightarrow> a ! j = 0"
  shows "val a = val (take i a) + 2 ^ (32 * i) * unat (a ! i)"
proof -
  have "\<forall>w \<in> set (drop (Suc i) a). w = 0"
    using assms(2) by (auto simp add: in_set_conv_nth)
  then have z: "val (drop (Suc i) a) = 0"
    by (simp only: val_zero_iff)
  have "a = take (Suc i) a @ drop (Suc i) a"
    by simp
  then have "val a = val (take (Suc i) a) + 2 ^ (32 * length (take (Suc i) a)) * val (drop (Suc i) a)"
    by (metis val_append)
  then show ?thesis
    using assms(1) z by (simp add: val_take_Suc)
qed

lemma val_take_bound: "val (take i a) < 2 ^ (32 * i)"
proof -
  have "val (take i a) < 2 ^ (32 * length (take i a))"
    by (rule val_bound)
  also have "(2 :: nat) ^ (32 * length (take i a)) \<le> 2 ^ (32 * i)"
    by (intro power_increasing) simp_all
  finally show ?thesis .
qed

text \<open>The bit tested by \<open>__builtin_clz\<close> and by the sign test of the division loop.\<close>

lemma bit_top_nat:
  fixes v :: nat
  assumes "v < 2 ^ Suc k"
  shows "bit v k \<longleftrightarrow> 2 ^ k \<le> v"
proof -
  have lt: "v div 2 ^ k < 2"
    using assms by (simp add: less_mult_imp_div_less)
  show ?thesis
  proof (cases "2 ^ k \<le> v")
    case True
    then have "0 < v div 2 ^ k"
      by (simp add: div_greater_zero_iff)
    with lt have "v div 2 ^ k = 1"
      by simp
    then show ?thesis
      using True by (simp add: bit_iff_odd)
  next
    case False
    then have "v div 2 ^ k = 0"
      by simp
    then show ?thesis
      using False by (simp add: bit_iff_odd)
  qed
qed

lemma clz_from_spec:
  fixes w :: u32
  assumes "k \<le> 32" and "unat w < 2 ^ k"
  shows "clz_from k w \<le> k \<and> unat w < 2 ^ (k - clz_from k w)
         \<and> (w \<noteq> 0 \<longrightarrow> clz_from k w < k \<and> 2 ^ (k - clz_from k w - 1) \<le> unat w)"
  using assms
proof (induction k)
  case 0
  then show ?case by (simp add: unat_eq_0)
next
  case (Suc k)
  have b: "bit w k \<longleftrightarrow> 2 ^ k \<le> unat w"
    using bit_top_nat [OF Suc.prems(2)] Suc.prems(1) by (simp add: bit_unsigned_iff)
  show ?case
  proof (cases "bit w k")
    case True
    then show ?thesis
      using b Suc.prems by simp
  next
    case False
    then have "unat w < 2 ^ k"
      using b by simp
    then show ?thesis
      using Suc.IH Suc.prems(1) False by (auto simp add: Suc_diff_le)
  qed
qed

lemma builtin_clz_spec:
  fixes w :: u32
  assumes "w \<noteq> 0"
  shows "builtin_clz w < 32" and "unat w < 2 ^ (32 - builtin_clz w)"
    and "2 ^ (32 - builtin_clz w - 1) \<le> unat w"
  using clz_from_spec [of 32 w] assms unat_u32_less [of w]
  by (simp_all add: builtin_clz_def)

lemma num_bits_scan_spec:
  "num_bits_scan a k \<le> k \<and> (\<forall>j. num_bits_scan a k < j \<and> j \<le> k \<longrightarrow> a ! j = 0)
   \<and> (0 < num_bits_scan a k \<longrightarrow> a ! num_bits_scan a k \<noteq> 0)"
proof (induction k)
  case 0
  then show ?case by simp
next
  case (Suc k)
  show ?case
  proof (cases "a ! Suc k = 0")
    case True
    then show ?thesis
      using Suc.IH by (auto simp add: le_Suc_eq)
  next
    case False
    then show ?thesis by auto
  qed
qed

lemma num_bits_scan_le: "num_bits_scan a k \<le> k"
  using num_bits_scan_spec [of a k] by blast

lemma num_bits_scan_zero: "num_bits_scan a k < j \<Longrightarrow> j \<le> k \<Longrightarrow> a ! j = 0"
  using num_bits_scan_spec [of a k] by blast

lemma num_bits_scan_nz: "0 < num_bits_scan a k \<Longrightarrow> a ! num_bits_scan a k \<noteq> 0"
  using num_bits_scan_spec [of a k] by blast

lemma num_bits_spec:
  assumes "length a = nwords bits" and "0 < nwords bits"
  shows "val a < 2 ^ num_bits bits a"
    and "val a \<noteq> 0 \<Longrightarrow> 2 ^ (num_bits bits a - 1) \<le> val a"
    and "val a = 0 \<Longrightarrow> num_bits bits a = 0"
    and "num_bits bits a \<le> 32 * nwords bits"
proof -
  define i where "i = num_bits_scan a (nwords bits - 1)"
  have i: "i < length a"
    using num_bits_scan_le [of a "nwords bits - 1"] assms unfolding i_def by linarith
  have z: "\<And>j. i < j \<Longrightarrow> j < length a \<Longrightarrow> a ! j = 0"
    unfolding i_def using assms by (intro num_bits_scan_zero [of a "nwords bits - 1"]) simp_all
  have nz: "0 < i \<Longrightarrow> a ! i \<noteq> 0"
    unfolding i_def by (rule num_bits_scan_nz)
  have v: "val a = val (take i a) + 2 ^ (32 * i) * unat (a ! i)"
    using i z by (rule val_top)
  have t: "val (take i a) < 2 ^ (32 * i)"
    by (rule val_take_bound)
  have nb: "num_bits bits a = (if a ! i = 0 then i * 32 else (i + 1) * 32 - builtin_clz (a ! i))"
    by (simp add: num_bits_def i_def Let_def)
  show "val a < 2 ^ num_bits bits a"
  proof (cases "a ! i = 0")
    case True
    then show ?thesis
      using v t nb by (simp add: mult.commute)
  next
    case False
    define m where "m = 32 - builtin_clz (a ! i)"
    have m: "unat (a ! i) < 2 ^ m"
      unfolding m_def using False by (rule builtin_clz_spec(2))
    then have "unat (a ! i) + 1 \<le> 2 ^ m"
      by simp
    then have "2 ^ (32 * i) * (unat (a ! i) + 1) \<le> 2 ^ (32 * i) * 2 ^ m"
      by (rule mult_le_mono2)
    then have "val a < 2 ^ (32 * i + m)"
      using v t by (simp add: power_add)
    moreover have "num_bits bits a = 32 * i + m"
      using nb False builtin_clz_spec(1) [OF False] by (simp add: m_def)
    ultimately show ?thesis by simp
  qed
  show "2 ^ (num_bits bits a - 1) \<le> val a" if "val a \<noteq> 0"
  proof (cases "a ! i = 0")
    case True
    then have "i = 0"
      using nz by auto
    then have "val a = 0"
      using v True by simp
    with that show ?thesis by simp
  next
    case False
    define m where "m = 32 - builtin_clz (a ! i)"
    have m: "2 ^ (m - 1) \<le> unat (a ! i)"
      unfolding m_def using False by (rule builtin_clz_spec(3))
    have mp: "0 < m"
      using builtin_clz_spec(1) [OF False] by (simp add: m_def)
    have "2 ^ (32 * i) * 2 ^ (m - 1) \<le> 2 ^ (32 * i) * unat (a ! i)"
      using m by (rule mult_le_mono2)
    then have "2 ^ (32 * i + (m - 1)) \<le> val a"
      unfolding power_add v by (rule trans_le_add2)
    moreover have "num_bits bits a - 1 = 32 * i + (m - 1)"
      using nb False builtin_clz_spec(1) [OF False] mp by (simp add: m_def)
    ultimately show ?thesis by simp
  qed
  show "num_bits bits a = 0" if "val a = 0"
  proof -
    have "a ! i = 0"
      using that i by (simp add: val_zero_iff)
    then have "i = 0"
      using nz by auto
    then show ?thesis
      using nb \<open>a ! i = 0\<close> by simp
  qed
  show "num_bits bits a \<le> 32 * nwords bits"
    using nb i assms(1) by (auto simp add: algebra_simps)
qed

section \<open>Division and modulo by zero, for every dividend\<close>

lemma drop_bit_31: "drop_bit 31 (w :: u32) = (if bit w 31 then 1 else 0)"
proof (rule bit_word_eqI)
  fix k :: nat
  assume "k < LENGTH(32)"
  show "bit (drop_bit 31 w) k \<longleftrightarrow> bit (if bit w 31 then 1 else 0 :: u32) k"
  proof (cases k)
    case 0
    then show ?thesis by (simp add: bit_drop_bit_eq)
  next
    case (Suc k')
    then have "\<not> bit w (31 + k)"
      by (intro bit_u32_high) simp
    then show ?thesis
      using Suc by (simp add: bit_drop_bit_eq bit_1_iff)
  qed
qed

lemma nwords_pos: "32 dvd bits \<Longrightarrow> 0 < bits \<Longrightarrow> 0 < nwords bits"
  by (auto simp add: nwords_def dvd_def)

lemma top_bit_test:
  assumes d: "32 dvd bits" and p: "0 < bits" and l: "length r = nwords bits"
  shows "drop_bit 31 (r ! (nwords bits - Suc 0)) = (if 2 ^ (bits - Suc 0) \<le> val r then 1 else 0 :: u32)"
proof -
  have n: "0 < nwords bits"
    using d p by (rule nwords_pos)
  have b: "32 * (nwords bits - 1) + 31 = bits - 1"
    using nwords_mult [OF d] n by simp
  have "bit (val r) (bits - 1)
          = (nwords bits - 1 < length r \<and> bit (r ! (nwords bits - 1)) 31)"
    by (subst b [symmetric]) (rule bit_val_at, simp)
  then have w: "bit (r ! (nwords bits - 1)) 31 = bit (val r) (bits - 1)"
    using n l by simp
  have "val r < 2 ^ Suc (bits - 1)"
    using val_bound [of r] l nwords_mult [OF d] p by simp
  then have "bit (val r) (bits - 1) \<longleftrightarrow> 2 ^ (bits - 1) \<le> val r"
    by (rule bit_top_nat)
  then show ?thesis
    using w by (simp add: drop_bit_31)
qed

lemma zero_by_val:
  "length a = nwords bits \<Longrightarrow> val a = 0 \<Longrightarrow> a = Bigint_words bits 0"
  by (rule val_inj) (simp_all add: Bigint_words_0)

lemma val_Bigint_words_0 [simp]: "val (Bigint_words bits 0) = 0"
  by (simp add: Bigint_words_0)

lemma lt_scan_zero: "k \<le> n \<Longrightarrow> \<not> lt_scan a (replicate n 0) k"
  by (induction k) simp_all

lemma op_lt_zero: "\<not> op_lt bits a (Bigint_words bits 0)"
  by (simp add: op_lt_def Bigint_words_0 lt_scan_zero)

lemma op_sub_zero:
  "length a = nwords bits \<Longrightarrow> op_sub bits a (Bigint_words bits 0) = a"
proof -
  assume l: "length a = nwords bits"
  have "val (op_sub bits a (Bigint_words bits 0)) = val a - val (Bigint_words bits 0)"
    by (rule op_sub_val(3)) (simp_all add: l)
  moreover have "length (op_sub bits a (Bigint_words bits 0)) = length a"
    using op_sub_val(1) [of a bits "Bigint_words bits 0"] l by simp
  ultimately show ?thesis
    by (intro val_inj) simp_all
qed

lemma op_shl_zero: "32 dvd bits \<Longrightarrow> op_shl bits (Bigint_words bits 0) s = Bigint_words bits 0"
  by (rule zero_by_val) (simp_all add: length_op_shl op_shl_val)

lemma op_shr_zero: "32 dvd bits \<Longrightarrow> op_shr bits (Bigint_words bits 0) s = Bigint_words bits 0"
  by (rule zero_by_val) (simp_all add: length_op_shr op_shr_val)

lemma mod_step_zero:
  "length a = nwords bits \<Longrightarrow> mod_step bits a (Bigint_words bits 0) = a"
  by (simp add: mod_step_def op_sub_zero)

lemma mod_loop_zero:
  "32 dvd bits \<Longrightarrow> length a = nwords bits \<Longrightarrow> mod_loop bits a (Bigint_words bits 0) k = a"
  by (induction k) (simp_all add: mod_step_zero op_shr_zero)

lemma op_mod_zero:
  "32 dvd bits \<Longrightarrow> length a = nwords bits \<Longrightarrow> op_mod bits a (Bigint_words bits 0) = a"
  by (simp add: op_mod_def op_lt_zero op_shl_zero mod_loop_zero)

lemma div_step_zero:
  assumes "32 dvd bits" and "0 < bits" and "length a = nwords bits"
  shows "div_step bits a quo (Bigint_words bits 0) e
           = (if val a < 2 ^ (bits - 1) then (a, op_add bits quo e) else (a, quo))"
  using assms by (simp add: div_step_def op_sub_zero top_bit_test)

lemma div_loop_zero_top_set:
  assumes "32 dvd bits" and "0 < bits" and "length a = nwords bits" and "\<not> val a < 2 ^ (bits - 1)"
  shows "div_loop bits a quo (Bigint_words bits 0) e k = quo"
  using assms by (induction k arbitrary: e) (simp_all add: div_step_zero op_shr_zero)

lemma div_loop_zero_top_clear:
  assumes d: "32 dvd bits" and p: "0 < bits" and la: "length a = nwords bits"
    and top: "val a < 2 ^ (bits - 1)"
  shows "length quo = nwords bits \<Longrightarrow> length e = nwords bits \<Longrightarrow> val e = 2 ^ k
           \<Longrightarrow> val quo + 2 ^ Suc k \<le> 2 ^ bits
           \<Longrightarrow> val (div_loop bits a quo (Bigint_words bits 0) e k) = val quo + 2 ^ Suc k - 1"
proof (induction k arbitrary: quo e)
  case 0
  have "val (op_add bits quo e) = (val quo + val e) mod 2 ^ (32 * nwords bits)"
    using "0.prems"(1,2) by (rule op_add_val(2))
  also have "\<dots> = val quo + 1"
    using "0.prems"(3,4) nwords_mult [OF d] by simp
  finally show ?case
    using top by (simp add: div_step_zero [OF d p la])
next
  case (Suc k)
  have a: "val (op_add bits quo e) = (val quo + val e) mod 2 ^ (32 * nwords bits)"
    using Suc.prems(1,2) by (rule op_add_val(2))
  have pk: "(0 :: nat) < 2 ^ k"
    by simp
  have "val quo + 2 ^ Suc k < 2 ^ bits"
    using Suc.prems(4) pk unfolding power_Suc by linarith
  then have q: "val (op_add bits quo e) = val quo + 2 ^ Suc k"
    using a Suc.prems(3) nwords_mult [OF d] by simp
  have lq: "length (op_add bits quo e) = nwords bits"
    using Suc.prems(1,2) by (rule op_add_val(1))
  have e: "val (op_shr bits e 1) = 2 ^ k"
    using op_shr_val [OF d Suc.prems(2), of 1] Suc.prems(3) by simp
  have "val (div_loop bits a (op_add bits quo e) (Bigint_words bits 0) (op_shr bits e 1) k)
          = val (op_add bits quo e) + 2 ^ Suc k - 1"
    using lq length_op_shr e
  proof (rule Suc.IH)
    show "val (op_add bits quo e) + 2 ^ Suc k \<le> 2 ^ bits"
      using q Suc.prems(4) by simp
  qed
  then show ?case
    using top q by (simp add: div_step_zero [OF d p la] op_shr_zero [OF d])
qed

lemma bit_difference_eq:
  assumes "num_bits bits x \<le> num_bits bits a" and "num_bits bits a < 2 ^ 32"
  shows "bit_difference bits a x = num_bits bits a - num_bits bits x"
proof -
  have a: "unat (word_of_nat (num_bits bits a) :: u32) = num_bits bits a"
    using assms(2) by (simp add: unat_of_nat)
  have x: "unat (word_of_nat (num_bits bits x) :: u32) = num_bits bits x"
    using assms by (simp add: unat_of_nat)
  have "(word_of_nat (num_bits bits x) :: u32) \<le> word_of_nat (num_bits bits a)"
    using assms(1) by (simp only: word_le_nat_alt a x)
  then show ?thesis
    unfolding bit_difference_def by (simp only: unat_sub a x)
qed

lemma num_bits_zero: "32 dvd bits \<Longrightarrow> 0 < bits \<Longrightarrow> num_bits bits (Bigint_words bits 0) = 0"
  by (rule num_bits_spec(3)) (simp_all add: nwords_pos)

text \<open>
  Claim C3, as the code has it, for a width that is a multiple of 32 and at least 64
  (so that the locals \<open>Bigint quo; Bigint e(1); Bigint r;\<close> and the zero divisor itself
  are constructed in range). Neither operator tests the divisor and neither raises:
  for a zero divisor \<open>operator%\<close> returns the dividend, and \<open>operator/\<close> returns the
  value with bits \<open>0 .. num_bits(a)\<close> set, that is \<open>2 ^ (num_bits(a) + 1) - 1\<close>, when the
  top bit of \<open>a\<close> is clear, and zero when it is set.
\<close>

theorem div_mod_by_zero_value:
  assumes d: "32 dvd bits" and w: "64 \<le> bits" and b: "bits < 2 ^ 32"
    and la: "length a = nwords bits"
  shows "Bigint_ull bits 0 = Inr (Bigint_words bits 0)
         \<and> op_mod bits a (Bigint_words bits 0) = a
         \<and> val (op_div bits a (Bigint_words bits 0))
             = (if val a < 2 ^ (bits - 1) then 2 ^ (num_bits bits a + 1) - 1 else 0)"
proof -
  have p: "0 < bits"
    using w by simp
  have n: "0 < nwords bits"
    using d p by (rule nwords_pos)
  have nb: "num_bits bits a \<le> bits"
    using num_bits_spec(4) [OF la n] nwords_mult [OF d] by simp
  have bd: "bit_difference bits a (Bigint_words bits 0) = num_bits bits a"
    using bit_difference_eq [of bits "Bigint_words bits 0" a] nb b
    by (simp add: num_bits_zero [OF d p])
  have dv: "op_div bits a (Bigint_words bits 0)
              = div_loop bits a (Bigint_words bits 0) (Bigint_words bits 0)
                  (op_shl bits (Bigint_words bits 1) (num_bits bits a)) (num_bits bits a)"
    by (simp add: op_div_def op_lt_zero bd op_shl_zero [OF d] Let_def)
  have v: "val (op_div bits a (Bigint_words bits 0))
             = (if val a < 2 ^ (bits - 1) then 2 ^ (num_bits bits a + 1) - 1 else 0)"
  proof (cases "val a < 2 ^ (bits - 1)")
    case False
    then show ?thesis
      by (simp add: dv div_loop_zero_top_set [OF d p la False])
  next
    case True
    have small: "num_bits bits a < bits"
    proof (cases "val a = 0")
      case True
      then show ?thesis
        using num_bits_spec(3) [OF la n] p by simp
    next
      case False
      have lo: "(2 :: nat) ^ (num_bits bits a - 1) \<le> val a"
        by (rule num_bits_spec(2) [OF la n False])
      have "(2 :: nat) ^ (num_bits bits a - 1) < 2 ^ (bits - 1)"
        using lo True by (rule le_less_trans)
      then have "num_bits bits a - 1 < bits - 1"
        by simp
      then show ?thesis by simp
    qed
    have one: "val (Bigint_words bits 1) = 1"
      using d p by (intro val_Bigint_words_1) (auto simp add: dvd_def)
    have "val (op_shl bits (Bigint_words bits 1) (num_bits bits a))
            = (1 * 2 ^ num_bits bits a) mod 2 ^ bits"
      using op_shl_val [OF d length_Bigint_words, of 1 "num_bits bits a"] one by simp
    also have "\<dots> = 2 ^ num_bits bits a"
      using small by simp
    finally have e: "val (op_shl bits (Bigint_words bits 1) (num_bits bits a)) = 2 ^ num_bits bits a" .
    have "val (div_loop bits a (Bigint_words bits 0) (Bigint_words bits 0)
                (op_shl bits (Bigint_words bits 1) (num_bits bits a)) (num_bits bits a))
            = val (Bigint_words bits 0) + 2 ^ Suc (num_bits bits a) - 1"
      using d p la True length_Bigint_words length_op_shl e
    proof (rule div_loop_zero_top_clear)
      have "(2 :: nat) ^ Suc (num_bits bits a) \<le> 2 ^ bits"
        using small by (intro power_increasing) simp_all
      then show "val (Bigint_words bits 0) + 2 ^ Suc (num_bits bits a) \<le> 2 ^ bits"
        by simp
    qed
    then show ?thesis
      using True by (simp add: dv)
  qed
  show ?thesis
    using v by (simp add: op_mod_zero [OF d la] Bigint_ull_words [OF w])
qed

theorem div_mod_by_zero_example:
  "Bigint_ull 64 0 = Inr (Bigint_words 64 0)
   \<and> op_mod 64 [6, 0] (Bigint_words 64 0) = [6, 0]
   \<and> val (op_div 64 [6, 0] (Bigint_words 64 0)) = 15"
proof -
  have nb: "num_bits 64 [6, 0] = 3"
    by code_simp
  have l: "length [6, 0 :: u32] = nwords 64"
    by (simp add: nwords_def)
  have d: "(32 :: nat) dvd 64"
    by simp
  show ?thesis
    using div_mod_by_zero_value [OF d _ _ l] by (simp add: nb)
qed

section \<open>Comparison, on values\<close>

text \<open>
  The index at which \<open>operator<\<close> and \<open>operator>\<close> answer: the highest index below
  \<open>k\<close> where either operand has a non-zero word, if there is one.
\<close>

lemma first_nonzero_word:
  "(\<forall>j < k. a ! j = 0 \<and> x ! j = 0)
   \<or> (\<exists>i < k. (\<forall>j. i < j \<and> j < k \<longrightarrow> a ! j = 0 \<and> x ! j = 0) \<and> (a ! i \<noteq> 0 \<or> x ! i \<noteq> 0))"
proof (induction k)
  case 0
  then show ?case by simp
next
  case (Suc k)
  show ?case
  proof (cases "a ! k \<noteq> 0 \<or> x ! k \<noteq> 0")
    case True
    have "\<forall>j. k < j \<and> j < Suc k \<longrightarrow> a ! j = 0 \<and> x ! j = 0"
      by auto
    with True show ?thesis
      by blast
  next
    case False
    from Suc.IH show ?thesis
    proof
      assume "\<forall>j < k. a ! j = 0 \<and> x ! j = 0"
      with False have "\<forall>j < Suc k. a ! j = 0 \<and> x ! j = 0"
        by (auto simp add: less_Suc_eq)
      then show ?thesis by blast
    next
      assume "\<exists>i < k. (\<forall>j. i < j \<and> j < k \<longrightarrow> a ! j = 0 \<and> x ! j = 0) \<and> (a ! i \<noteq> 0 \<or> x ! i \<noteq> 0)"
      then obtain i where i: "i < k" "\<forall>j. i < j \<and> j < k \<longrightarrow> a ! j = 0 \<and> x ! j = 0"
        "a ! i \<noteq> 0 \<or> x ! i \<noteq> 0"
        by blast
      have "\<forall>j. i < j \<and> j < Suc k \<longrightarrow> a ! j = 0 \<and> x ! j = 0"
        using i(2) False by (auto simp add: less_Suc_eq)
      with i(1,3) show ?thesis
        by (metis less_Suc_eq)
    qed
  qed
qed

lemma val_all_zero:
  "\<forall>j < length a. a ! j = 0 \<Longrightarrow> val a = 0"
  by (auto simp add: val_zero_iff in_set_conv_nth)

lemma val_less_by_top_word:
  assumes i: "i < length a" "i < length x"
    and za: "\<And>j. i < j \<Longrightarrow> j < length a \<Longrightarrow> a ! j = 0"
    and zx: "\<And>j. i < j \<Longrightarrow> j < length x \<Longrightarrow> x ! j = 0"
    and lt: "a ! i < x ! i"
  shows "val a < val x"
proof -
  have a: "val a = val (take i a) + 2 ^ (32 * i) * unat (a ! i)"
    using i(1) za by (rule val_top)
  have x: "val x = val (take i x) + 2 ^ (32 * i) * unat (x ! i)"
    using i(2) zx by (rule val_top)
  have "unat (a ! i) + 1 \<le> unat (x ! i)"
    using lt by (simp add: word_less_nat_alt)
  then have "2 ^ (32 * i) * (unat (a ! i) + 1) \<le> 2 ^ (32 * i) * unat (x ! i)"
    by (rule mult_le_mono2)
  moreover have "val (take i a) < 2 ^ (32 * i)"
    by (rule val_take_bound)
  ultimately show ?thesis
    unfolding a x by (simp add: algebra_simps)
qed

text \<open>A tie: both operands have the same non-zero word \<open>w\<close> at the deciding index.\<close>

lemma val_tie_by_top_word:
  assumes i: "i < length a" "i < length x"
    and za: "\<And>j. i < j \<Longrightarrow> j < length a \<Longrightarrow> a ! j = 0"
    and zx: "\<And>j. i < j \<Longrightarrow> j < length x \<Longrightarrow> x ! j = 0"
    and eq: "a ! i = x ! i" and nz: "a ! i \<noteq> 0"
  shows "\<exists>w. 0 < w \<and> w * 2 ^ (32 * i) \<le> val a \<and> val a < (w + 1) * 2 ^ (32 * i)
             \<and> w * 2 ^ (32 * i) \<le> val x \<and> val x < (w + 1) * 2 ^ (32 * i)"
proof -
  have a: "val a = val (take i a) + 2 ^ (32 * i) * unat (a ! i)"
    using i(1) za by (rule val_top)
  have x: "val x = val (take i x) + 2 ^ (32 * i) * unat (a ! i)"
    using val_top [of i x] i(2) zx eq by simp
  have ta: "val (take i a) < 2 ^ (32 * i)"
    by (rule val_take_bound)
  have tx: "val (take i x) < 2 ^ (32 * i)"
    by (rule val_take_bound)
  have w: "0 < unat (a ! i)"
    using nz by (simp add: unat_gt_0)
  show ?thesis
    using w ta tx unfolding a x
    by (intro exI [of _ "unat (a ! i)"]) (simp add: algebra_simps)
qed

lemma op_lt_cases:
  assumes la: "length a = nwords bits" and lx: "length x = nwords bits"
  shows "(op_lt bits a x \<and> val a < val x)
         \<or> (\<not> op_lt bits a x \<and> val x \<le> val a)
         \<or> (\<not> op_lt bits a x \<and> val a < val x
             \<and> (\<exists>i w. 0 < i \<and> i < nwords bits \<and> 0 < w \<and> w * 2 ^ (32 * i) \<le> val a
                   \<and> val x < (w + 1) * 2 ^ (32 * i)))"
proof -
  from first_nonzero_word [of "nwords bits" a x] show ?thesis
  proof
    assume z: "\<forall>j < nwords bits. a ! j = 0 \<and> x ! j = 0"
    then have "val a = 0" and "val x = 0"
      using la lx by (simp_all add: val_all_zero)
    moreover have "lt_scan a x (nwords bits) = lt_scan a x 0"
      using z by (intro lt_scan_skip) simp_all
    ultimately show ?thesis
      by (simp add: op_lt_def)
  next
    assume "\<exists>i < nwords bits. (\<forall>j. i < j \<and> j < nwords bits \<longrightarrow> a ! j = 0 \<and> x ! j = 0)
               \<and> (a ! i \<noteq> 0 \<or> x ! i \<noteq> 0)"
    then obtain i where i: "i < nwords bits"
      and z: "\<forall>j. i < j \<and> j < nwords bits \<longrightarrow> a ! j = 0 \<and> x ! j = 0"
      and nz: "a ! i \<noteq> 0 \<or> x ! i \<noteq> 0"
      by blast
    have dec: "op_lt bits a x = (a ! i < x ! i)"
      using op_lt_gt_decided_at_first_nonzero_word [OF i z nz] by simp
    have za: "\<And>j. i < j \<Longrightarrow> j < length a \<Longrightarrow> a ! j = 0"
      using z la by simp
    have zx: "\<And>j. i < j \<Longrightarrow> j < length x \<Longrightarrow> x ! j = 0"
      using z lx by simp
    have ia: "i < length a" and ix: "i < length x"
      using i la lx by simp_all
    consider (less) "a ! i < x ! i" | (greater) "x ! i < a ! i" | (equal) "a ! i = x ! i"
      by (metis linorder_neqE)
    then show ?thesis
    proof cases
      case less
      then have "val a < val x"
        using ia ix za zx by (intro val_less_by_top_word [of i a x]) simp_all
      with less dec show ?thesis by simp
    next
      case greater
      then have "val x < val a"
        using ia ix za zx by (intro val_less_by_top_word [of i x a]) simp_all
      moreover have "\<not> a ! i < x ! i"
        using greater by simp
      ultimately show ?thesis
        using dec by simp
    next
      case equal
      then have anz: "a ! i \<noteq> 0"
        using nz by auto
      obtain w where w: "0 < w" "w * 2 ^ (32 * i) \<le> val a" "val a < (w + 1) * 2 ^ (32 * i)"
        "w * 2 ^ (32 * i) \<le> val x" "val x < (w + 1) * 2 ^ (32 * i)"
        using val_tie_by_top_word [OF ia ix za zx equal anz] by blast
      have nlt: "\<not> op_lt bits a x"
        using dec equal by simp
      show ?thesis
      proof (cases "val x \<le> val a")
        case True
        with nlt show ?thesis by simp
      next
        case False
        have "0 < i"
        proof (rule ccontr)
          assume "\<not> 0 < i"
          then have i0: "i = 0" by simp
          have "val a = unat (a ! 0)"
            using val_top [OF ia za] by (simp add: i0)
          moreover have "val x = unat (x ! 0)"
            using val_top [OF ix zx] by (simp add: i0)
          ultimately show False
            using False equal by (simp add: i0)
        qed
        then show ?thesis
          using nlt False i w by auto
      qed
    qed
  qed
qed

section \<open>Division and modulo, on values\<close>

lemma gt_scan_swap: "gt_scan a x k = lt_scan x a k"
  by (induction k) auto

lemma op_gt_swap: "op_gt bits a x = op_lt bits x a"
  by (simp add: op_gt_def op_lt_def gt_scan_swap)

lemma op_lt_sound:
  "length a = nwords bits \<Longrightarrow> length x = nwords bits \<Longrightarrow> op_lt bits a x \<Longrightarrow> val a < val x"
  using op_lt_cases [of a bits x] by blast

lemma op_gt_small:
  assumes la: "length a = nwords bits" and lx: "length x = nwords bits"
    and small: "val a < 2 ^ 32 \<or> val x < 2 ^ 32"
  shows "op_gt bits a x = (val x < val a)"
proof -
  have "\<not> (\<exists>i w. 0 < i \<and> i < nwords bits \<and> 0 < w \<and> w * 2 ^ (32 * i) \<le> val x \<and> val x < val a)"
  proof
    assume "\<exists>i w. 0 < i \<and> i < nwords bits \<and> 0 < w \<and> w * 2 ^ (32 * i) \<le> val x \<and> val x < val a"
    then obtain i w where iw: "0 < i" "0 < w" "w * 2 ^ (32 * i) \<le> val x" "val x < val a"
      by blast
    have "(2 :: nat) ^ 32 \<le> 2 ^ (32 * i)"
      using iw(1) by (intro power_increasing) simp_all
    also have "\<dots> \<le> w * 2 ^ (32 * i)"
      using iw(2) by simp
    finally have "2 ^ 32 \<le> val x"
      using iw(3) by simp
    with iw(4) small show False
      by simp
  qed
  then show ?thesis
    using op_lt_cases [OF lx la] by (auto simp add: op_gt_swap)
qed

text \<open>One pass of the loops of \<open>operator/\<close> and \<open>operator%\<close>, on values.\<close>

lemma sub_sign_test:
  assumes d: "32 dvd bits" and p: "0 < bits"
    and lr: "length rem = nwords bits" and lc: "length c = nwords bits"
    and near: "val c \<le> val rem + 2 ^ (bits - 1)" and dbl: "val rem < 2 * val c"
  shows "drop_bit 31 (op_sub bits rem c ! (nwords bits - Suc 0)) = (if val c \<le> val rem then 0 else 1 :: u32)"
    and "val c \<le> val rem \<Longrightarrow> val (op_sub bits rem c) = val rem - val c"
proof -
  have two: "(2 :: nat) ^ bits = 2 * 2 ^ (bits - 1)"
    using p by (cases bits) simp_all
  have nb: "32 * nwords bits = bits"
    using d by (rule nwords_mult)
  have lrem: "val rem < 2 ^ bits"
    using val_bound [of rem] lr nb by simp
  have ls: "length (op_sub bits rem c) = nwords bits"
    using lr lc by (rule op_sub_val(1))
  have t: "drop_bit 31 (op_sub bits rem c ! (nwords bits - Suc 0))
             = (if 2 ^ (bits - Suc 0) \<le> val (op_sub bits rem c) then 1 else 0 :: u32)"
    using d p ls by (rule top_bit_test)
  show "drop_bit 31 (op_sub bits rem c ! (nwords bits - Suc 0)) = (if val c \<le> val rem then 0 else 1 :: u32)"
  proof (cases "val c \<le> val rem")
    case True
    then have v: "val (op_sub bits rem c) = val rem - val c"
      using op_sub_val(3) [OF lr lc] by simp
    have "2 * (val rem - val c) < 2 ^ bits"
      using True dbl lrem by linarith
    then have "val rem - val c < 2 ^ (bits - 1)"
      unfolding two by simp
    then show ?thesis
      using True by (simp add: t v)
  next
    case False
    then have v: "val (op_sub bits rem c) = 2 ^ bits + val rem - val c"
      using op_sub_val(4) [OF lr lc] nb by simp
    have "2 ^ (bits - 1) \<le> 2 ^ bits + val rem - val c"
      using near False unfolding two by linarith
    then show ?thesis
      using False by (simp add: t v)
  qed
  show "val c \<le> val rem \<Longrightarrow> val (op_sub bits rem c) = val rem - val c"
    using op_sub_val(3) [OF lr lc] by simp
qed

lemma div_mod_loop:
  assumes d: "32 dvd bits" and p: "0 < bits" and X: "0 < X"
  shows "length rem = nwords bits \<Longrightarrow> length quo = nwords bits \<Longrightarrow> length c = nwords bits
         \<Longrightarrow> length e = nwords bits \<Longrightarrow> val c = X * 2 ^ k \<Longrightarrow> val e = 2 ^ k
         \<Longrightarrow> val rem < 2 * val c \<Longrightarrow> val c \<le> val rem + 2 ^ (bits - 1)
         \<Longrightarrow> val quo * X + val rem < 2 ^ bits
         \<Longrightarrow> val (div_loop bits rem quo c e k) = val quo + val rem div X
             \<and> val (mod_loop bits rem c k) = val rem mod X
             \<and> length (div_loop bits rem quo c e k) = nwords bits
             \<and> length (mod_loop bits rem c k) = nwords bits"
proof (induction k arbitrary: rem quo c e)
  case 0
  note sign = sub_sign_test [OF d p "0.prems"(1,3,8,7)]
  show ?case
  proof (cases "val c \<le> val rem")
    case True
    have r: "val (op_sub bits rem c) = val rem - X"
      using sign(2) [OF True] "0.prems"(5) by simp
    have a1: "val quo \<le> val quo * X"
      using X by simp
    have a2: "1 \<le> val rem"
      using X True "0.prems"(5) by simp
    have "val quo + 1 \<le> val quo * X + val rem"
      using a1 a2 by linarith
    then have "val quo + 1 < 2 ^ bits"
      using "0.prems"(9) by simp
    then have q: "val (op_add bits quo e) = val quo + 1"
      using op_add_val(2) [OF "0.prems"(2,4)] "0.prems"(6) nwords_mult [OF d] by simp
    have "val rem div X = 1"
      using True "0.prems"(5,7) X by (simp add: div_nat_eqI)
    moreover have "val rem mod X = val rem - X"
      using True "0.prems"(5,7) X by (simp add: mod_nat_eqI le_mod_geq)
    ultimately show ?thesis
      using True sign(1) r q op_sub_val(1) [OF "0.prems"(1,3)] op_add_val(1) [OF "0.prems"(2,4)]
      by (simp add: div_step_def mod_step_def Let_def)
  next
    case False
    then have "val rem < X"
      using "0.prems"(5) by simp
    then show ?thesis
      using False sign(1) "0.prems"(1,2)
      by (simp add: div_step_def mod_step_def Let_def)
  qed
next
  case (Suc k)
  note sign = sub_sign_test [OF d p Suc.prems(1,3,8,7)]
  have nb: "32 * nwords bits = bits"
    using d by (rule nwords_mult)
  have two: "(2 :: nat) ^ bits = 2 * 2 ^ (bits - 1)"
    using p by (cases bits) simp_all
  have c': "val (op_shr bits c 1) = X * 2 ^ k"
    using op_shr_val [OF d Suc.prems(3), of 1] Suc.prems(5) by simp
  have e': "val (op_shr bits e 1) = 2 ^ k"
    using op_shr_val [OF d Suc.prems(4), of 1] Suc.prems(6) by simp
  have cb: "val c < 2 ^ bits"
    using val_bound [of c] Suc.prems(3) nb by simp
  have c2: "val c = 2 * val (op_shr bits c 1)"
    using c' Suc.prems(5) by simp
  have near': "\<And>r. val (op_shr bits c 1) \<le> r + 2 ^ (bits - 1)"
    using cb c2 unfolding two by linarith
  show ?case
  proof (cases "val c \<le> val rem")
    case True
    define r where "r = op_sub bits rem c"
    define q where "q = op_add bits quo e"
    have r: "val r = val rem - val c"
      unfolding r_def using sign(2) [OF True] .
    have lr: "length r = nwords bits"
      unfolding r_def using Suc.prems(1,3) by (rule op_sub_val(1))
    have lq: "length q = nwords bits"
      unfolding q_def using Suc.prems(2,4) by (rule op_add_val(1))
    have "val quo + 2 ^ Suc k \<le> val quo * X + val rem"
    proof -
      have "val quo \<le> val quo * X"
        using X by simp
      moreover have "2 ^ Suc k \<le> val c"
        using X Suc.prems(5) by simp
      ultimately show ?thesis
        using True by linarith
    qed
    then have "val quo + 2 ^ Suc k < 2 ^ bits"
      using Suc.prems(9) by simp
    then have q: "val q = val quo + 2 ^ Suc k"
      unfolding q_def using op_add_val(2) [OF Suc.prems(2,4)] Suc.prems(6) nb by simp
    have st: "div_step bits rem quo c e = (r, q)" "mod_step bits rem c = r"
      using True sign(1) by (simp_all add: div_step_def mod_step_def Let_def r_def q_def)
    have dbl': "val r < 2 * val (op_shr bits c 1)"
      using r Suc.prems(7) c2 by simp
    have tot: "val q * X + val r = val quo * X + val rem"
      using q r True Suc.prems(5) by (simp add: algebra_simps)
    have IH: "val (div_loop bits r q (op_shr bits c 1) (op_shr bits e 1) k) = val q + val r div X
             \<and> val (mod_loop bits r (op_shr bits c 1) k) = val r mod X
             \<and> length (div_loop bits r q (op_shr bits c 1) (op_shr bits e 1) k) = nwords bits
             \<and> length (mod_loop bits r (op_shr bits c 1) k) = nwords bits"
      using lr lq length_op_shr length_op_shr c' e' dbl' near'
    proof (rule Suc.IH)
      show "val q * X + val r < 2 ^ bits"
        using tot Suc.prems(9) by simp
    qed
    have rem: "val rem = val r + 2 ^ Suc k * X"
      using r True Suc.prems(5) by (simp add: algebra_simps)
    have "val rem div X = 2 ^ Suc k + val r div X"
      unfolding rem using X by simp
    moreover have "val rem mod X = val r mod X"
      unfolding rem by simp
    ultimately show ?thesis
      using IH q by (simp add: st)
  next
    case False
    have st: "div_step bits rem quo c e = (rem, quo)" "mod_step bits rem c = rem"
      using False sign(1) by (simp_all add: div_step_def mod_step_def Let_def)
    have dbl': "val rem < 2 * val (op_shr bits c 1)"
      using False c2 by simp
    have IH: "val (div_loop bits rem quo (op_shr bits c 1) (op_shr bits e 1) k) = val quo + val rem div X
             \<and> val (mod_loop bits rem (op_shr bits c 1) k) = val rem mod X
             \<and> length (div_loop bits rem quo (op_shr bits c 1) (op_shr bits e 1) k) = nwords bits
             \<and> length (mod_loop bits rem (op_shr bits c 1) k) = nwords bits"
      using Suc.prems(1,2) length_op_shr length_op_shr c' e' dbl' near' Suc.prems(9)
      by (rule Suc.IH)
    then show ?thesis
      by (simp add: st)
  qed
qed

lemma pow2_less_imp_less: "(2 :: nat) ^ m < 2 ^ n \<Longrightarrow> m < n"
  by simp

lemma div_alignment:
  assumes d: "32 dvd bits" and p: "0 < bits"
    and la: "length a = nwords bits" and lx: "length x = nwords bits"
    and X: "0 < val x" and nlt: "\<not> op_lt bits a x"
  shows "num_bits bits x \<le> num_bits bits a
         \<and> val x * 2 ^ (num_bits bits a - num_bits bits x) \<le> val a + 2 ^ (bits - 1)"
proof -
  have n: "0 < nwords bits"
    using d p by (rule nwords_pos)
  have nb: "32 * nwords bits = bits"
    using d by (rule nwords_mult)
  define na where "na = num_bits bits a"
  define nx where "nx = num_bits bits x"
  have ua: "val a < 2 ^ na"
    unfolding na_def using la n by (rule num_bits_spec(1))
  have ux: "val x < 2 ^ nx"
    unfolding nx_def using lx n by (rule num_bits_spec(1))
  have lox: "2 ^ (nx - 1) \<le> val x"
    unfolding nx_def using num_bits_spec(2) [OF lx n] X by simp
  have loa: "val a \<noteq> 0 \<Longrightarrow> 2 ^ (na - 1) \<le> val a"
    unfolding na_def using num_bits_spec(2) [OF la n] by simp
  have nab: "na \<le> bits"
    unfolding na_def using num_bits_spec(4) [OF la n] nb by simp
  have nxp: "0 < nx"
    using ux X by (cases nx) simp_all
  from op_lt_cases [OF la lx] nlt
  consider (ge) "val x \<le> val a"
    | (tie) i w where "val a < val x" "0 < i" "i < nwords bits" "0 < w"
        "w * 2 ^ (32 * i) \<le> val a" "val x < (w + 1) * 2 ^ (32 * i)"
    by blast
  then have "nx \<le> na \<and> val x * 2 ^ (na - nx) \<le> val a + 2 ^ (bits - 1)"
  proof cases
    case ge
    then have anz: "val a \<noteq> 0"
      using X by simp
    have "(2 :: nat) ^ (nx - 1) < 2 ^ na"
      using lox ge ua by linarith
    then have "nx - 1 < na"
      by (rule pow2_less_imp_less)
    then have le: "nx \<le> na"
      by simp
    have "val x * 2 ^ (na - nx) < 2 ^ nx * 2 ^ (na - nx)"
      using ux by simp
    also have "\<dots> = 2 ^ na"
      using le by (simp add: power_add [symmetric])
    also have "\<dots> = 2 * 2 ^ (na - 1)"
      using le nxp by (cases na) simp_all
    finally have c: "val x * 2 ^ (na - nx) < 2 * 2 ^ (na - 1)" .
    have "(2 :: nat) ^ (na - 1) \<le> 2 ^ (bits - 1)"
      using nab by (intro power_increasing) simp_all
    then have "val x * 2 ^ (na - nx) \<le> val a + 2 ^ (bits - 1)"
      using c loa [OF anz] by linarith
    with le show ?thesis by simp
  next
    case tie
    define m where "m = 32 * i"
    have w1: "2 ^ m \<le> w * 2 ^ m"
      using tie(4) by simp
    then have am: "2 ^ m \<le> val a"
      using tie(5) unfolding m_def by linarith
    then have anz: "val a \<noteq> 0"
      by (metis not_less power_eq_0_iff zero_le zero_neq_numeral le_zero_eq)
    have "(2 :: nat) ^ m < 2 ^ na"
      using am ua by linarith
    then have mna: "m < na"
      by (rule pow2_less_imp_less)
    have "w * 2 ^ m < 2 ^ (na - m) * 2 ^ m"
      using tie(5) ua mna unfolding m_def by (simp add: power_add [symmetric])
    then have "w < 2 ^ (na - m)"
      by simp
    then have "(w + 1) * 2 ^ m \<le> 2 ^ (na - m) * 2 ^ m"
      by (intro mult_le_mono1) simp
    also have "\<dots> = 2 ^ na"
      using mna by (simp add: power_add [symmetric])
    finally have "val x < 2 ^ na"
      using tie(6) unfolding m_def by linarith
    then have "(2 :: nat) ^ (nx - 1) < 2 ^ na"
      using lox by linarith
    then have "nx - 1 < na"
      by (rule pow2_less_imp_less)
    then have le: "nx \<le> na"
      by simp
    have "(2 :: nat) ^ (na - 1) < 2 ^ nx"
      using loa [OF anz] tie(1) ux by linarith
    then have "na - 1 < nx"
      by (rule pow2_less_imp_less)
    then have eq: "na = nx"
      using le by simp
    have "m \<le> bits - 1"
      using tie(3) nb unfolding m_def by simp
    then have "(2 :: nat) ^ m \<le> 2 ^ (bits - 1)"
      by (intro power_increasing) simp_all
    moreover have "val x < w * 2 ^ m + 2 ^ m"
      using tie(6) unfolding m_def by (simp add: algebra_simps)
    ultimately have "val x \<le> val a + 2 ^ (bits - 1)"
      using tie(5) unfolding m_def by linarith
    then show ?thesis
      using eq by simp
  qed
  then show ?thesis
    by (simp add: na_def nx_def)
qed

lemma op_div_mod_loop_val:
  assumes d: "32 dvd bits" and p: "0 < bits" and b: "bits < 2 ^ 32"
    and la: "length a = nwords bits" and lx: "length x = nwords bits"
    and X: "0 < val x" and nlt: "\<not> op_lt bits a x"
  shows "val (op_div bits a x) = val a div val x \<and> val (op_mod bits a x) = val a mod val x
         \<and> length (op_div bits a x) = nwords bits \<and> length (op_mod bits a x) = nwords bits"
proof -
  have n: "0 < nwords bits"
    using d p by (rule nwords_pos)
  have nb: "32 * nwords bits = bits"
    using d by (rule nwords_mult)
  define na where "na = num_bits bits a"
  define nx where "nx = num_bits bits x"
  define bd where "bd = na - nx"
  have al: "nx \<le> na" "val x * 2 ^ bd \<le> val a + 2 ^ (bits - 1)"
    using div_alignment [OF d p la lx X nlt] by (simp_all add: na_def nx_def bd_def)
  have ua: "val a < 2 ^ na"
    unfolding na_def using la n by (rule num_bits_spec(1))
  have ux: "val x < 2 ^ nx"
    unfolding nx_def using lx n by (rule num_bits_spec(1))
  have lox: "2 ^ (nx - 1) \<le> val x"
    unfolding nx_def using num_bits_spec(2) [OF lx n] X by simp
  have nab: "na \<le> bits"
    unfolding na_def using num_bits_spec(4) [OF la n] nb by simp
  have nxp: "0 < nx"
    using ux X by (cases nx) simp_all
  have bdd: "bit_difference bits a x = bd"
    unfolding bd_def na_def nx_def
    using al(1) nab b by (intro bit_difference_eq) (simp_all add: na_def nx_def)
  have bdb: "bd < bits"
    using nxp al(1) nab by (simp add: bd_def)
  have "val x * 2 ^ bd < 2 ^ nx * 2 ^ bd"
    using ux by simp
  also have "\<dots> = 2 ^ na"
    using al(1) by (simp add: power_add [symmetric] bd_def)
  finally have cn: "val x * 2 ^ bd < 2 ^ na" .
  have "(2 :: nat) ^ na \<le> 2 ^ bits"
    using nab by (intro power_increasing) simp_all
  then have "val x * 2 ^ bd < 2 ^ bits"
    using cn by linarith
  then have c: "val (op_shl bits x bd) = val x * 2 ^ bd"
    using op_shl_val [OF d lx, of bd] by simp
  have one: "val (Bigint_words bits 1) = 1"
    using d p by (intro val_Bigint_words_1) (auto simp add: dvd_def)
  have "(2 :: nat) ^ bd < 2 ^ bits"
    using bdb by simp
  then have e: "val (op_shl bits (Bigint_words bits 1) bd) = 2 ^ bd"
    using op_shl_val [OF d length_Bigint_words, of 1 bd] one by simp
  have "(2 :: nat) ^ na = 2 ^ nx * 2 ^ bd"
    using al(1) by (simp add: power_add [symmetric] bd_def)
  also have "\<dots> = 2 * (2 ^ (nx - 1) * 2 ^ bd)"
    using nxp by (cases nx) simp_all
  also have "\<dots> \<le> 2 * (val x * 2 ^ bd)"
    using lox by simp
  finally have dbl: "val a < 2 * val (op_shl bits x bd)"
    using ua c by linarith
  have near: "val (op_shl bits x bd) \<le> val a + 2 ^ (bits - 1)"
    using al(2) c by simp
  have tot: "val (Bigint_words bits 0) * val x + val a < 2 ^ bits"
    using val_bound [of a] la nb by simp
  have "val (div_loop bits a (Bigint_words bits 0) (op_shl bits x bd)
               (op_shl bits (Bigint_words bits 1) bd) bd)
          = val (Bigint_words bits 0) + val a div val x
        \<and> val (mod_loop bits a (op_shl bits x bd) bd) = val a mod val x
        \<and> length (div_loop bits a (Bigint_words bits 0) (op_shl bits x bd)
               (op_shl bits (Bigint_words bits 1) bd) bd) = nwords bits
        \<and> length (mod_loop bits a (op_shl bits x bd) bd) = nwords bits"
    using d p X la length_Bigint_words length_op_shl length_op_shl c e dbl near tot
    by (rule div_mod_loop)
  then show ?thesis
    using nlt by (simp add: op_div_def op_mod_def bdd Let_def)
qed

lemma op_mod_val:
  assumes d: "32 dvd bits" and p: "0 < bits" and b: "bits < 2 ^ 32"
    and la: "length a = nwords bits" and lx: "length x = nwords bits" and X: "0 < val x"
  shows "val (op_mod bits a x) = val a mod val x" and "length (op_mod bits a x) = nwords bits"
proof -
  have "val (op_mod bits a x) = val a mod val x \<and> length (op_mod bits a x) = nwords bits"
  proof (cases "op_lt bits a x")
    case True
    then have "val a < val x"
      using la lx by (intro op_lt_sound [of a bits x]) simp_all
    then show ?thesis
      using True la by (simp add: op_mod_def)
  next
    case False
    then show ?thesis
      using op_div_mod_loop_val [OF d p b la lx X False] by simp
  qed
  then show "val (op_mod bits a x) = val a mod val x" and "length (op_mod bits a x) = nwords bits"
    by simp_all
qed

lemma length_op_div:
  assumes d: "32 dvd bits" and p: "0 < bits" and b: "bits < 2 ^ 32"
    and la: "length a = nwords bits" and lx: "length x = nwords bits" and X: "0 < val x"
  shows "length (op_div bits a x) = nwords bits"
proof (cases "op_lt bits a x")
  case True
  then show ?thesis
    using la by (simp add: op_div_def)
next
  case False
  then show ?thesis
    using op_div_mod_loop_val [OF d p b la lx X False] by simp
qed

section \<open>Multiplication\<close>

lemma val_update:
  assumes "k < length res"
  shows "val (res[k := w]) + 2 ^ (32 * k) * unat (res ! k) = val res + 2 ^ (32 * k) * unat w"
proof -
  have r: "res = take k res @ res ! k # drop (Suc k) res"
    using assms by (simp add: id_take_nth_drop [symmetric])
  have u: "res[k := w] = take k res @ w # drop (Suc k) res"
    using assms by (rule upd_conv_take_nth_drop)
  have l: "length (take k res) = k"
    using assms by simp
  have "val res = val (take k res) + 2 ^ (32 * k) * (unat (res ! k) + 4294967296 * val (drop (Suc k) res))"
    using arg_cong [OF r, of val] by (simp only: val_append l val.simps) simp
  moreover have "val (res[k := w]) = val (take k res) + 2 ^ (32 * k) * (unat w + 4294967296 * val (drop (Suc k) res))"
    unfolding u by (simp only: val_append l val.simps) simp
  ultimately show ?thesis
    by (simp add: algebra_simps)
qed

lemma ushort_id: "k < 65536 \<Longrightarrow> ushort k = k"
  by (simp add: ushort_def unat_of_nat)

lemma mul_temp_val:
  assumes "unat carry < 4294967296"
  shows "unat (mul_temp a x i j k carry res) = unat (res ! k) + unat (a ! i) * unat (x ! j) + unat carry"
proof -
  have la: "unat (a ! i) \<le> 4294967295"
    using unat_u32_less [of "a ! i"] by simp
  have lx: "unat (x ! j) \<le> 4294967295"
    using unat_u32_less [of "x ! j"] by simp
  have lr: "unat (res ! k) \<le> 4294967295"
    using unat_u32_less [of "res ! k"] by simp
  have "unat (a ! i) * unat (x ! j) \<le> 4294967295 * 4294967295"
    using la lx by (rule mult_le_mono)
  then have pb: "unat (a ! i) * unat (x ! j) \<le> 18446744065119617025"
    by simp
  have "unat ((ucast (a ! i) :: u64) * ucast (x ! j)) = unat (ucast (a ! i) :: u64) * unat (ucast (x ! j) :: u64)"
    using pb by (intro unat_mult_lem [THEN iffD1]) simp
  then have pm: "unat ((ucast (a ! i) :: u64) * ucast (x ! j)) = unat (a ! i) * unat (x ! j)"
    by simp
  have s1: "unat ((ucast (res ! k) :: u64) + ucast (a ! i) * ucast (x ! j))
              = unat (res ! k) + unat (a ! i) * unat (x ! j)"
    using pb lr by (intro unat_add_lem [THEN iffD1, THEN trans]) (simp_all add: pm)
  show ?thesis
    unfolding mul_temp_def using pb lr assms
    by (intro unat_add_lem [THEN iffD1, THEN trans]) (simp_all add: s1)
qed

lemma take_drop_Suc:
  "j < length x \<Longrightarrow> take (Suc m) (drop j x) = x ! j # take m (drop (Suc j) x)"
  by (simp add: Cons_nth_drop_Suc [symmetric])

lemma mul_inner_val:
  assumes n: "n < 65536" and lx: "length x = n"
  shows "i + j \<le> n \<Longrightarrow> n - (i + j) \<le> left \<Longrightarrow> length res = n \<Longrightarrow> unat carry < 4294967296
     \<Longrightarrow> \<exists>cf. val (mul_inner left n a x i j carry res) + 2 ^ (32 * n) * cf
                 = val res + 2 ^ (32 * (i + j))
                     * (unat carry + unat (a ! i) * val (take (n - (i + j)) (drop j x)))
              \<and> length (mul_inner left n a x i j carry res) = n"
proof (induction left arbitrary: j carry res)
  case 0
  then have "i + j = n"
    by simp
  then show ?case
    using "0.prems" by (intro exI [of _ "unat carry"]) simp
next
  case (Suc left)
  show ?case
  proof (cases "i + j = n")
    case True
    then have "\<not> ushort (i + j) < n"
      using n by (simp add: ushort_id)
    then show ?thesis
      using True Suc.prems by (intro exI [of _ "unat carry"]) simp
  next
    case False
    then have k: "i + j < n"
      using Suc.prems(1) by simp
    then have us: "ushort (i + j) = i + j"
      using n by (simp add: ushort_id)
    define t where "t = mul_temp a x i j (i + j) carry res"
    define low where "low = (ucast t :: u32)"
    define carry' where "carry' = drop_bit 32 t"
    define res' where "res' = res[i + j := low]"
    define P where "P = (2 :: nat) ^ (32 * (i + j))"
    define T' where "T' = val (take (n - (i + Suc j)) (drop (Suc j) x))"
    have step: "mul_inner (Suc left) n a x i j carry res = mul_inner left n a x i (Suc j) carry' res'"
      using k by (simp add: us t_def low_def carry'_def res'_def)
    have tv: "unat t = unat (res ! (i + j)) + unat (a ! i) * unat (x ! j) + unat carry"
      unfolding t_def using Suc.prems(4) by (rule mul_temp_val)
    have lowv: "unat low = unat t mod 4294967296"
      unfolding low_def by (rule unat_ucast_u64_u32)
    have cv: "unat carry' = unat t div 4294967296"
      unfolding carry'_def by (rule unat_drop_bit_32)
    have tb: "unat t < 18446744073709551616"
      using unsigned_less [of t] by simp
    then have cb: "unat carry' < 4294967296"
      using cv by simp
    have split: "unat low + 4294967296 * unat carry' = unat (res ! (i + j)) + unat (a ! i) * unat (x ! j) + unat carry"
      using lowv cv tv by simp
    have upd: "val res' + P * unat (res ! (i + j)) = val res + P * unat low"
      unfolding res'_def P_def using k Suc.prems(3) by (intro val_update) simp
    have lres': "length res' = n"
      using Suc.prems(3) by (simp add: res'_def)
    have "\<exists>cf. val (mul_inner left n a x i (Suc j) carry' res') + 2 ^ (32 * n) * cf
                 = val res' + 2 ^ (32 * (i + Suc j))
                     * (unat carry' + unat (a ! i) * val (take (n - (i + Suc j)) (drop (Suc j) x)))
              \<and> length (mul_inner left n a x i (Suc j) carry' res') = n"
      using k Suc.prems(2) lres' cb by (intro Suc.IH) simp_all
    then obtain cf where cf: "val (mul_inner left n a x i (Suc j) carry' res') + 2 ^ (32 * n) * cf
                 = val res' + 2 ^ (32 * (i + Suc j)) * (unat carry' + unat (a ! i) * T')"
      and len: "length (mul_inner left n a x i (Suc j) carry' res') = n"
      unfolding T'_def by blast
    have P': "(2 :: nat) ^ (32 * (i + Suc j)) = P * 4294967296"
      by (simp add: P_def power_add)
    have jn: "j < length x"
      using k lx by simp
    have "n - (i + j) = Suc (n - (i + Suc j))"
      using k by simp
    then have T: "val (take (n - (i + j)) (drop j x)) = unat (x ! j) + 4294967296 * T'"
      using jn by (simp add: take_drop_Suc T'_def)
    have "val res' + P * 4294967296 * (unat carry' + unat (a ! i) * T') + P * unat (res ! (i + j))
            = val res + P * (unat low + 4294967296 * unat carry') + P * 4294967296 * unat (a ! i) * T'"
      using upd by (simp add: algebra_simps)
    also have "\<dots> = val res + P * (unat carry + unat (a ! i) * (unat (x ! j) + 4294967296 * T'))
                        + P * unat (res ! (i + j))"
      unfolding split by (simp add: algebra_simps)
    finally have "val res' + P * 4294967296 * (unat carry' + unat (a ! i) * T')
            = val res + P * (unat carry + unat (a ! i) * (unat (x ! j) + 4294967296 * T'))"
      by simp
    then have "val (mul_inner left n a x i (Suc j) carry' res') + 2 ^ (32 * n) * cf
            = val res + 2 ^ (32 * (i + j))
                * (unat carry + unat (a ! i) * val (take (n - (i + j)) (drop j x)))"
      using cf unfolding P' T P_def by simp
    then show ?thesis
      using len unfolding step by blast
  qed
qed

lemma mul_row_val:
  assumes n: "n < 65536" and lx: "length x = n" and i: "i < n" and lr: "length res = n"
  shows "val (mul_inner n n a x i 0 0 res) mod 2 ^ (32 * n)
           = (val res + 2 ^ (32 * i) * unat (a ! i) * val x) mod 2 ^ (32 * n)"
    and "length (mul_inner n n a x i 0 0 res) = n"
proof -
  obtain cf where cf: "val (mul_inner n n a x i 0 0 res) + 2 ^ (32 * n) * cf
        = val res + 2 ^ (32 * (i + 0)) * (unat (0 :: u64) + unat (a ! i) * val (take (n - (i + 0)) (drop 0 x)))"
    and len: "length (mul_inner n n a x i 0 0 res) = n"
    using mul_inner_val [OF n lx, of i 0 n res 0 a] i lr by auto
  show "length (mul_inner n n a x i 0 0 res) = n"
    by (rule len)
  have e: "val (mul_inner n n a x i 0 0 res) + 2 ^ (32 * n) * cf
        = val res + 2 ^ (32 * i) * unat (a ! i) * val (take (n - i) x)"
    using cf by (simp add: algebra_simps)
  have "x = take (n - i) x @ drop (n - i) x"
    by simp
  then have "val x = val (take (n - i) x) + 2 ^ (32 * length (take (n - i) x)) * val (drop (n - i) x)"
    by (metis val_append)
  then have x: "val x = val (take (n - i) x) + 2 ^ (32 * (n - i)) * val (drop (n - i) x)"
    using lx by simp
  have pw: "(2 :: nat) ^ (32 * i) * 2 ^ (32 * (n - i)) = 2 ^ (32 * n)"
    using i by (simp add: power_add [symmetric] algebra_simps)
  have "2 ^ (32 * i) * unat (a ! i) * val x
          = 2 ^ (32 * i) * unat (a ! i) * val (take (n - i) x)
            + (2 ^ (32 * i) * 2 ^ (32 * (n - i))) * (unat (a ! i) * val (drop (n - i) x))"
    by (subst x) (simp add: algebra_simps)
  then have "val res + 2 ^ (32 * i) * unat (a ! i) * val x
          = val (mul_inner n n a x i 0 0 res)
            + 2 ^ (32 * n) * (cf + unat (a ! i) * val (drop (n - i) x))"
    unfolding pw using e by (simp add: algebra_simps)
  then show "val (mul_inner n n a x i 0 0 res) mod 2 ^ (32 * n)
           = (val res + 2 ^ (32 * i) * unat (a ! i) * val x) mod 2 ^ (32 * n)"
    by (metis mod_mult_self2)
qed

lemma mul_rows_val:
  assumes n: "n < 65536" and lx: "length x = n" and la: "length a = n"
  shows "k \<le> n \<Longrightarrow> length res = n \<Longrightarrow>
     val (fold (\<lambda>i res. mul_inner n n a x i 0 0 res) [0..<k] res) mod 2 ^ (32 * n)
       = (val res + val (take k a) * val x) mod 2 ^ (32 * n)
     \<and> length (fold (\<lambda>i res. mul_inner n n a x i 0 0 res) [0..<k] res) = n"
proof (induction k)
  case 0
  then show ?case by simp
next
  case (Suc k)
  define r where "r = fold (\<lambda>i res. mul_inner n n a x i 0 0 res) [0..<k] res"
  have IH: "val r mod 2 ^ (32 * n) = (val res + val (take k a) * val x) mod 2 ^ (32 * n)"
    and lr: "length r = n"
    using Suc.IH Suc.prems by (simp_all add: r_def)
  have kn: "k < n"
    using Suc.prems(1) by simp
  have f: "fold (\<lambda>i res. mul_inner n n a x i 0 0 res) [0..<Suc k] res = mul_inner n n a x k 0 0 r"
    by (simp add: r_def)
  have "val (mul_inner n n a x k 0 0 r) mod 2 ^ (32 * n)
          = (val r + 2 ^ (32 * k) * unat (a ! k) * val x) mod 2 ^ (32 * n)"
    using n lx kn lr by (rule mul_row_val(1))
  also have "\<dots> = (val r mod 2 ^ (32 * n) + 2 ^ (32 * k) * unat (a ! k) * val x) mod 2 ^ (32 * n)"
    by (simp add: mod_add_left_eq)
  also have "\<dots> = (val res + val (take k a) * val x + 2 ^ (32 * k) * unat (a ! k) * val x) mod 2 ^ (32 * n)"
    unfolding IH by (simp add: mod_add_left_eq)
  also have "val res + val (take k a) * val x + 2 ^ (32 * k) * unat (a ! k) * val x
               = val res + val (take (Suc k) a) * val x"
    using kn la by (simp add: val_take_Suc algebra_simps)
  finally have "val (mul_inner n n a x k 0 0 r) mod 2 ^ (32 * n)
          = (val res + val (take (Suc k) a) * val x) mod 2 ^ (32 * n)" .
  moreover have "length (mul_inner n n a x k 0 0 r) = n"
    using n lx kn lr by (rule mul_row_val(2))
  ultimately show ?case
    unfolding f by simp
qed

lemma op_mul_val:
  assumes n: "nwords bits < 65536" and la: "length a = nwords bits" and lx: "length x = nwords bits"
  shows "val (op_mul bits a x) = (val a * val x) mod 2 ^ (32 * nwords bits)"
    and "length (op_mul bits a x) = nwords bits"
proof -
  have r: "val (op_mul bits a x) mod 2 ^ (32 * nwords bits)
             = (val (Bigint_words bits 0) + val (take (nwords bits) a) * val x) mod 2 ^ (32 * nwords bits)
           \<and> length (op_mul bits a x) = nwords bits"
    unfolding op_mul_def using n lx la by (intro mul_rows_val) simp_all
  then show len: "length (op_mul bits a x) = nwords bits"
    by simp
  have "val (op_mul bits a x) < 2 ^ (32 * nwords bits)"
    using val_bound [of "op_mul bits a x"] len by simp
  then show "val (op_mul bits a x) = (val a * val x) mod 2 ^ (32 * nwords bits)"
    using r la by simp
qed

section \<open>The modular inverse\<close>

lemma nwords_ushort: "bits < 2 ^ 21 \<Longrightarrow> nwords bits < 65536"
  by (simp add: nwords_def)

lemma val_less_pow_bits:
  "32 dvd bits \<Longrightarrow> length a = nwords bits \<Longrightarrow> val a < 2 ^ bits"
  using val_bound [of a] nwords_mult [of bits] by simp

lemma inverse_step:
  assumes d: "32 dvd bits" and p: "0 < bits" and b: "bits < 2 ^ 21" and B: "B0 < 2 ^ bits"
    and inv: "inverse_inv bits A0 B0 a bt x0 s0 x1 s1" and gt: "1 < val a"
  defines "qx0 \<equiv> op_mul bits (op_div bits a bt) x0"
  defines "x0' \<equiv> (if s0 \<noteq> s1 then op_add bits x1 qx0
                    else if op_gt bits x1 qx0 then op_sub bits x1 qx0 else op_sub bits qx0 x1)"
  defines "s0' \<equiv> (if s0 \<noteq> s1 then s1 else if op_gt bits x1 qx0 then s1 else \<not> s0)"
  shows "inverse_inv bits A0 B0 bt (op_mod bits a bt) x0' s0' x0 s0"
    and "val (op_mod bits a bt) < val bt"
proof -
  have la: "length a = nwords bits" and lb: "length bt = nwords bits"
    and l0: "length x0 = nwords bits" and l1: "length x1 = nwords bits"
    and I1: "(sval x1 s1 * int A0) mod int B0 = int (val a) mod int B0"
    and I2: "(sval x0 s0 * int A0) mod int B0 = int (val bt) mod int B0"
    and I3: "val x1 * val bt + val x0 * val a = B0"
    and I4: "s0 = s1 \<Longrightarrow> val x1 \<le> 1 \<and> (val x0 = 0 \<or> val x1 = 0)"
    and I6: "gcd (val a) (val bt) = 1"
    and I7: "val x0 = 0 \<or> val bt < val a"
    and I8: "val x1 < B0"
    using inv by (simp_all add: inverse_inv_def)
  have b32: "bits < 2 ^ 32"
    using b by simp
  have nw: "nwords bits < 65536"
    using b by (rule nwords_ushort)
  have nb: "32 * nwords bits = bits"
    using d by (rule nwords_mult)
  have btp: "0 < val bt"
  proof (rule ccontr)
    assume "\<not> 0 < val bt"
    then have "gcd (val a) (val bt) = val a"
      by simp
    with I6 gt show False by simp
  qed
  define Q where "Q = val a div val bt"
  have mv: "val (op_mod bits a bt) = val a mod val bt"
    using d p b32 la lb btp by (rule op_mod_val(1))
  have ml: "length (op_mod bits a bt) = nwords bits"
    using d p b32 la lb btp by (rule op_mod_val(2))
  show "val (op_mod bits a bt) < val bt"
    using mv btp by simp
  have lq: "length (op_div bits a bt) = nwords bits"
    using d p b32 la lb btp by (rule length_op_div)
  have lqx: "length qx0 = nwords bits"
    unfolding qx0_def using nw lq l0 by (rule op_mul_val(2))
  have qa: "Q * val bt \<le> val a"
    unfolding Q_def by simp
  have "Q * val x0 \<le> val a * val x0"
    using qa btp by (intro mult_le_mono1) (metis Q_def div_le_dividend)
  also have "\<dots> \<le> B0"
    using I3 by (simp add: mult.commute)
  finally have qxb: "Q * val x0 \<le> B0" .
  have qv: "val qx0 = Q * val x0"
  proof (cases "op_lt bits a bt")
    case True
    then have "val a < val bt"
      using la lb by (intro op_lt_sound [of a bits bt]) simp_all
    then have z: "val x0 = 0"
      using I7 by simp
    then show ?thesis
      unfolding qx0_def using op_mul_val(1) [OF nw lq l0] by simp
  next
    case False
    have "val (op_div bits a bt) = Q"
      unfolding Q_def using op_div_mod_loop_val [OF d p b32 la lb btp False] by simp
    then have "val qx0 = (Q * val x0) mod 2 ^ bits"
      unfolding qx0_def using op_mul_val(1) [OF nw lq l0] nb by simp
    then show ?thesis
      using qxb B by simp
  qed
  have "(val x1 + Q * val x0) * val bt = val x1 * val bt + val x0 * (Q * val bt)"
    by (simp add: algebra_simps)
  also have "\<dots> \<le> val x1 * val bt + val x0 * val a"
    using qa by simp
  finally have "(val x1 + Q * val x0) * val bt \<le> B0"
    using I3 by simp
  moreover have "val x1 + Q * val x0 \<le> (val x1 + Q * val x0) * val bt"
    using btp by simp
  ultimately have sumb: "val x1 + Q * val x0 \<le> B0"
    by linarith
  have new: "val x0' = val x1 + Q * val x0 \<and> sval x0' s0' = sval x1 s1 - int Q * sval x0 s0
             \<and> length x0' = nwords bits
             \<and> (s0' = s0 \<longrightarrow> val x0 \<le> 1 \<and> (val x0' = 0 \<or> val x0 = 0))"
  proof (cases "s0 = s1")
    case False
    have "val (op_add bits x1 qx0) = (val x1 + Q * val x0) mod 2 ^ bits"
      using op_add_val(2) [OF l1 lqx] qv nb by simp
    then have v: "val (op_add bits x1 qx0) = val x1 + Q * val x0"
      using sumb B by simp
    have l: "length (op_add bits x1 qx0) = nwords bits"
      using l1 lqx by (rule op_add_val(1))
    show ?thesis
      using False v l by (cases s0; cases s1) (simp_all add: x0'_def s0'_def sval_def algebra_simps)
  next
    case True
    have small: "val x1 \<le> 1" and zero: "val x0 = 0 \<or> val x1 = 0"
      using I4 [OF True] by simp_all
    have g: "op_gt bits x1 qx0 = (val qx0 < val x1)"
      using l1 lqx small by (intro op_gt_small) simp_all
    show ?thesis
    proof (cases "val qx0 < val x1")
      case gt1: True
      then have x1v: "val x1 = 1" and qz: "val qx0 = 0"
        using small by simp_all
      have x0z: "val x0 = 0"
        using zero x1v by simp
      have v: "val (op_sub bits x1 qx0) = val x1 - val qx0"
        using op_sub_val(3) [OF l1 lqx] gt1 by simp
      have l: "length (op_sub bits x1 qx0) = nwords bits"
        using l1 lqx by (rule op_sub_val(1))
      show ?thesis
        using True gt1 g v l x1v qz x0z
        by (simp add: x0'_def s0'_def sval_def)
    next
      case ngt: False
      have v: "val (op_sub bits qx0 x1) = val qx0 - val x1"
        using op_sub_val(3) [OF lqx l1] ngt by simp
      have l: "length (op_sub bits qx0 x1) = nwords bits"
        using lqx l1 by (rule op_sub_val(1))
      from zero show ?thesis
      proof
        assume x0z: "val x0 = 0"
        then have "val qx0 = 0"
          using qv by simp
        then have "val x1 = 0"
          using ngt by simp
        then show ?thesis
          using True ngt g v l x0z \<open>val qx0 = 0\<close>
          by (simp add: x0'_def s0'_def sval_def)
      next
        assume x1z: "val x1 = 0"
        then show ?thesis
          using True ngt g v l qv
          by (cases s0) (simp_all add: x0'_def s0'_def sval_def)
      qed
    qed
  qed
  have mag: "val x0' = val x1 + Q * val x0"
    by (rule conjunct1 [OF new])
  have sg: "sval x0' s0' = sval x1 s1 - int Q * sval x0 s0"
    by (rule conjunct1 [OF conjunct2 [OF new]])
  have l0': "length x0' = nwords bits"
    by (rule conjunct1 [OF conjunct2 [OF conjunct2 [OF new]]])
  have I4': "s0' = s0 \<longrightarrow> val x0 \<le> 1 \<and> (val x0' = 0 \<or> val x0 = 0)"
    by (rule conjunct2 [OF conjunct2 [OF conjunct2 [OF new]]])
  have e1: "sval x0' s0' * int A0 = sval x1 s1 * int A0 - int Q * (sval x0 s0 * int A0)"
    unfolding sg by (simp add: algebra_simps)
  have e2: "(sval x1 s1 * int A0 - int Q * (sval x0 s0 * int A0)) mod int B0
      = (int (val a) - int Q * int (val bt)) mod int B0"
    by (intro mod_diff_cong mod_mult_cong I1 I2 refl)
  have "val a = Q * val bt + val a mod val bt"
    unfolding Q_def by simp
  then have "int (val a) = int Q * int (val bt) + int (val a mod val bt)"
    by (metis of_nat_add of_nat_mult)
  then have e3: "int (val a) - int Q * int (val bt) = int (val (op_mod bits a bt))"
    unfolding mv by simp
  have I2': "(sval x0' s0' * int A0) mod int B0 = int (val (op_mod bits a bt)) mod int B0"
    unfolding e1 e2 e3 ..
  have "val x0 * (val a mod val bt) + (val x1 + Q * val x0) * val bt
          = val x1 * val bt + val x0 * (Q * val bt + val a mod val bt)"
    by (simp add: algebra_simps)
  also have "Q * val bt + val a mod val bt = val a"
    unfolding Q_def by simp
  finally have I3': "val x0 * val (op_mod bits a bt) + val x0' * val bt = B0"
    unfolding mv mag using I3 by simp
  have "2 * val x0 \<le> val x0 * val a"
    using gt by simp
  then have "2 * val x0 \<le> B0"
    using I3 by linarith
  moreover have "0 < B0"
    using I8 by simp
  ultimately have I8': "val x0 < B0"
    by linarith
  have I6': "gcd (val bt) (val (op_mod bits a bt)) = 1"
    unfolding mv using I6 by (metis gcd_red_nat)
  show "inverse_inv bits A0 B0 bt (op_mod bits a bt) x0' s0' x0 s0"
    unfolding inverse_inv_def
    using lb ml l0' l0 I2 I2' I3' I4' I6' I8' btp mv
    by simp
qed

lemma val_one: "32 dvd bits \<Longrightarrow> 0 < bits \<Longrightarrow> val (Bigint_words bits 1) = 1"
  by (intro val_Bigint_words_1) (auto simp add: dvd_def)

lemma one_by_val:
  "32 dvd bits \<Longrightarrow> 0 < bits \<Longrightarrow> length a = nwords bits \<Longrightarrow> val a = 1 \<Longrightarrow> a = Bigint_words bits 1"
  by (rule val_inj) (simp_all add: val_one)

lemma inverse_loop_result:
  assumes d: "32 dvd bits" and p: "0 < bits" and b: "bits < 2 ^ 21"
    and B1: "1 < B0" and B: "B0 < 2 ^ bits"
  shows "inverse_inv bits A0 B0 a bt x0 s0 x1 s1 \<Longrightarrow>
     \<exists>r s. inverse_loop bits a bt x0 s0 x1 s1 = Some (r, s) \<and> length r = nwords bits
           \<and> val r < B0 \<and> (sval r s * int A0) mod int B0 = 1"
proof (induction "val bt" arbitrary: a bt x0 s0 x1 s1 rule: less_induct)
  case less
  have la: "length a = nwords bits" and l1: "length x1 = nwords bits"
    and I1: "(sval x1 s1 * int A0) mod int B0 = int (val a) mod int B0"
    and I8: "val x1 < B0" and I9: "1 \<le> val a"
    using less.prems by (simp_all add: inverse_inv_def)
  have g: "op_gt bits a (Bigint_words bits 1) = (1 < val a)"
    using op_gt_small [of a bits "Bigint_words bits 1"] la val_one [OF d p] by simp
  show ?case
  proof (cases "1 < val a")
    case True
    note st = inverse_step [OF d p b B less.prems True]
    have "\<exists>r s. inverse_loop bits bt (op_mod bits a bt)
             (if s0 \<noteq> s1 then op_add bits x1 (op_mul bits (op_div bits a bt) x0)
              else if op_gt bits x1 (op_mul bits (op_div bits a bt) x0)
                   then op_sub bits x1 (op_mul bits (op_div bits a bt) x0)
                   else op_sub bits (op_mul bits (op_div bits a bt) x0) x1)
             (if s0 \<noteq> s1 then s1
              else if op_gt bits x1 (op_mul bits (op_div bits a bt) x0) then s1 else \<not> s0)
             x0 s0 = Some (r, s) \<and> length r = nwords bits
           \<and> val r < B0 \<and> (sval r s * int A0) mod int B0 = 1"
      using st(2) st(1) by (rule less.hyps)
    moreover have "inverse_loop bits a bt x0 s0 x1 s1 =
        inverse_loop bits bt (op_mod bits a bt)
             (if s0 \<noteq> s1 then op_add bits x1 (op_mul bits (op_div bits a bt) x0)
              else if op_gt bits x1 (op_mul bits (op_div bits a bt) x0)
                   then op_sub bits x1 (op_mul bits (op_div bits a bt) x0)
                   else op_sub bits (op_mul bits (op_div bits a bt) x0) x1)
             (if s0 \<noteq> s1 then s1
              else if op_gt bits x1 (op_mul bits (op_div bits a bt) x0) then s1 else \<not> s0)
             x0 s0"
      using True by (subst inverse_loop.simps) (simp add: g)
    ultimately show ?thesis
      by simp
  next
    case False
    then have a1: "val a = 1"
      using I9 by simp
    have "(sval x1 s1 * int A0) mod int B0 = 1"
      using I1 B1 by (simp add: a1)
    then show ?thesis
      using l1 I8 False by (subst inverse_loop.simps) (simp add: g)
  qed
qed

lemma gcd_loop_val:
  assumes d: "32 dvd bits" and p: "0 < bits" and b: "bits < 2 ^ 32"
  shows "length a = nwords bits \<Longrightarrow> length bt = nwords bits \<Longrightarrow>
     \<exists>g. gcd_loop bits a bt = Some g \<and> length g = nwords bits \<and> val g = gcd (val a) (val bt)"
proof (induction "val bt" arbitrary: a bt rule: less_induct)
  case less
  have ne: "op_ne bits bt (Bigint_words bits 0) = (val bt \<noteq> 0)"
    using less.prems(2) zero_by_val [of bt bits] by (auto simp add: op_ne_iff)
  show ?case
  proof (cases "val bt = 0")
    case True
    then show ?thesis
      using less.prems(1) by (subst gcd_loop.simps) (simp add: ne)
  next
    case False
    then have pos: "0 < val bt"
      by simp
    have mv: "val (op_mod bits a bt) = val a mod val bt"
      using d p b less.prems pos by (rule op_mod_val(1))
    have ml: "length (op_mod bits a bt) = nwords bits"
      using d p b less.prems pos by (rule op_mod_val(2))
    have "val (op_mod bits a bt) < val bt"
      using mv pos by simp
    then have "\<exists>g. gcd_loop bits bt (op_mod bits a bt) = Some g \<and> length g = nwords bits
                 \<and> val g = gcd (val bt) (val (op_mod bits a bt))"
      using less.prems(2) ml by (rule less.hyps)
    moreover have "gcd (val bt) (val (op_mod bits a bt)) = gcd (val a) (val bt)"
      unfolding mv by (metis gcd_red_nat)
    moreover have "gcd_loop bits a bt = gcd_loop bits bt (op_mod bits a bt)"
      by (subst gcd_loop.simps) (simp add: ne False)
    ultimately show ?thesis
      by simp
  qed
qed

text \<open>
  Claim C7, as the code has it, for a width that is a multiple of 32, at least 64 and
  below \<open>2 ^ 21\<close> bits. For operands with \<open>gcd(a, b) == 1\<close> and \<open>b > 1\<close> (no
  \<open>x\<close> has \<open>(a * x) % 1 == 1\<close>), \<open>inverse\<close> returns an \<open>x < b\<close> with
  \<open>a * x \<equiv> 1 (mod b)\<close> for the exact product; \<open>(a * x) % b == 1\<close> with the
  width-truncating \<open>operator*\<close> follows wherever the product \<open>a * x\<close> fits the width.
\<close>

theorem inverse_bigint_correct:
  assumes d: "32 dvd bits" and w: "64 \<le> bits" and b: "bits < 2 ^ 21"
    and la: "length a = nwords bits" and lb: "length b = nwords bits"
    and b1: "1 < val b" and g: "gcd_bigint bits a b = Some (Bigint_words bits 1)"
  shows "\<exists>x. inverse_bigint bits a b = Some x \<and> length x = nwords bits
           \<and> val x < val b
           \<and> (val a * val x) mod val b = 1
           \<and> (val a * val x < 2 ^ bits \<longrightarrow>
                op_eq bits (op_mod bits (op_mul bits a x) b) (Bigint_words bits 1))"
proof -
  have p: "0 < bits"
    using w by simp
  have b32: "bits < 2 ^ 32"
    using b by simp
  have nb: "32 * nwords bits = bits"
    using d by (rule nwords_mult)
  have B: "val b < 2 ^ bits"
    using d lb by (rule val_less_pow_bits)
  have cop: "gcd (val a) (val b) = 1"
    using gcd_loop_val [OF d p b32 la lb] g val_one [OF d p] by (auto simp add: gcd_bigint_def)
  have a0: "1 \<le> val a"
  proof (rule ccontr)
    assume "\<not> 1 \<le> val a"
    then have "val a = 0"
      by simp
    then have "gcd (val a) (val b) = val b"
      by simp
    with cop b1 show False by simp
  qed
  have inv: "inverse_inv bits (val a) (val b) a b (Bigint_words bits 0) False (Bigint_words bits 1) False"
    using la lb b1 cop a0 by (simp add: inverse_inv_def sval_def val_one [OF d p])
  obtain r s where loop: "inverse_loop bits a b (Bigint_words bits 0) False (Bigint_words bits 1) False = Some (r, s)"
    and lr: "length r = nwords bits" and rb: "val r < val b"
    and rv: "(sval r s * int (val a)) mod int (val b) = 1"
    using inverse_loop_result [OF d p b b1 B inv] by blast
  define x where "x = (if s then op_sub bits b r else r)"
  have res: "inverse_bigint bits a b = Some x"
    by (simp add: inverse_bigint_def loop x_def)
  have lx: "length x = nwords bits"
    using lr op_sub_val(1) [OF lb lr] by (simp add: x_def)
  have xv: "int (val x) = (if s then int (val b) - int (val r) else int (val r))"
    using op_sub_val(3) [OF lb lr] rb by (simp add: x_def of_nat_diff)
  have "(int (val x) * int (val a)) mod int (val b) = (sval r s * int (val a)) mod int (val b)"
  proof (cases s)
    case True
    have "(int (val b) - int (val r)) * int (val a) = - int (val r) * int (val a) + int (val a) * int (val b)"
      by (simp add: algebra_simps)
    then have "((int (val b) - int (val r)) * int (val a)) mod int (val b)
                 = (- int (val r) * int (val a)) mod int (val b)"
      by (simp only: mod_mult_self1)
    then show ?thesis
      using True by (simp add: xv sval_def)
  next
    case False
    then show ?thesis
      by (simp add: xv sval_def)
  qed
  then have "int ((val a * val x) mod val b) = 1"
    using rv by (simp add: zmod_int mult.commute)
  then have m: "(val a * val x) mod val b = 1"
    by simp
  have fit: "op_eq bits (op_mod bits (op_mul bits a x) b) (Bigint_words bits 1)"
    if small: "val a * val x < 2 ^ bits"
  proof -
    have nw: "nwords bits < 65536"
      using b by (rule nwords_ushort)
    have pv: "val (op_mul bits a x) = val a * val x"
      using op_mul_val(1) [OF nw la lx] small nb by simp
    have pl: "length (op_mul bits a x) = nwords bits"
      using nw la lx by (rule op_mul_val(2))
    have bp: "0 < val b"
      using b1 by simp
    have "val (op_mod bits (op_mul bits a x) b) = 1"
      using op_mod_val(1) [OF d p b32 pl lb bp] pv m by simp
    moreover have "length (op_mod bits (op_mul bits a x) b) = nwords bits"
      using d p b32 pl lb bp by (rule op_mod_val(2))
    ultimately have "op_mod bits (op_mul bits a x) b = Bigint_words bits 1"
      using d p by (intro one_by_val)
    then show ?thesis
      by (simp add: op_eq_iff)
  qed
  have r0: "val r \<noteq> 0"
  proof
    assume "val r = 0"
    then have "(sval r s * int (val a)) mod int (val b) = 0"
      by (simp add: sval_def)
    with rv show False by simp
  qed
  have xb: "val x < val b"
    using xv rb r0 by (cases s) simp_all
  show ?thesis
    using res lx xb m fit by blast
qed

text \<open>Evaluation of \<open>operator/\<close> and \<open>operator%\<close> from the values.\<close>

lemma op_div_eval:
  assumes "32 dvd bits" and "0 < bits" and "bits < 2 ^ 32"
    and "length a = nwords bits" and "length x = nwords bits"
    and "\<not> op_lt bits a x"
    and "length q = nwords bits" and "val a = val q * val x + val r" and "val r < val x"
  shows "op_div bits a x = q"
proof -
  have X: "0 < val x"
    using assms(9) by simp
  have "val (op_div bits a x) = val a div val x" and l: "length (op_div bits a x) = nwords bits"
    using op_div_mod_loop_val [OF assms(1-5) X assms(6)] by simp_all
  then have "val (op_div bits a x) = val q"
    using assms(8,9) by simp
  with l show ?thesis
    using assms(7) by (intro val_inj) simp_all
qed

lemma op_mod_eval:
  assumes "32 dvd bits" and "0 < bits" and "bits < 2 ^ 32"
    and "length a = nwords bits" and "length x = nwords bits"
    and "length r = nwords bits" and "val a = q * val x + val r" and "val r < val x"
  shows "op_mod bits a x = r"
proof -
  have X: "0 < val x"
    using assms(8) by simp
  have "val (op_mod bits a x) = val a mod val x" and l: "length (op_mod bits a x) = nwords bits"
    using op_mod_val [OF assms(1-5) X] by simp_all
  then have "val (op_mod bits a x) = val r"
    using assms(7,8) by simp
  with l show ?thesis
    using assms(6) by (intro val_inj) simp_all
qed

lemma gcd_bigint_3_11: "gcd_bigint 64 [3, 0] [11, 0] = Some [1, 0]"
proof -
  have m1: "op_mod 64 [3, 0] [11, 0] = [3, 0]"
    by code_simp
  have s1: "gcd_loop 64 [3, 0] [11, 0] = gcd_loop 64 [11, 0] [3, 0]"
    by (subst gcd_loop.simps, simp only: m1, code_simp, simp?)
  have n2: "\<not> op_lt 64 [11, 0] [3, 0]"
    by code_simp
  have m2: "op_mod 64 [11, 0] [3, 0] = [2, 0]"
    by (rule op_mod_eval [where q = "3"]) (simp_all add: nwords_def)
  have s2: "gcd_loop 64 [11, 0] [3, 0] = gcd_loop 64 [3, 0] [2, 0]"
    by (subst gcd_loop.simps, simp only: m2, code_simp, simp?)
  have n3: "\<not> op_lt 64 [3, 0] [2, 0]"
    by code_simp
  have m3: "op_mod 64 [3, 0] [2, 0] = [1, 0]"
    by (rule op_mod_eval [where q = "1"]) (simp_all add: nwords_def)
  have s3: "gcd_loop 64 [3, 0] [2, 0] = gcd_loop 64 [2, 0] [1, 0]"
    by (subst gcd_loop.simps, simp only: m3, code_simp, simp?)
  have n4: "\<not> op_lt 64 [2, 0] [1, 0]"
    by code_simp
  have m4: "op_mod 64 [2, 0] [1, 0] = [0, 0]"
    by (rule op_mod_eval [where q = "2"]) (simp_all add: nwords_def)
  have s4: "gcd_loop 64 [2, 0] [1, 0] = gcd_loop 64 [1, 0] [0, 0]"
    by (subst gcd_loop.simps, simp only: m4, code_simp, simp?)
  have s5: "gcd_loop 64 [1, 0] [0, 0] = Some [1, 0]"
    by (subst gcd_loop.simps, code_simp)
  show ?thesis
    unfolding gcd_bigint_def by (simp only: s1 s2 s3 s4 s5)
qed

lemma inverse_bigint_3_11: "inverse_bigint 64 [3, 0] [11, 0] = Some [4, 0]"
proof -
  have d1: "op_div 64 [3, 0] [11, 0] = [3, 0]"
    by code_simp
  have m1: "op_mod 64 [3, 0] [11, 0] = [3, 0]"
    by code_simp
  have s1: "inverse_loop 64 [3, 0] [11, 0] [0, 0] False [1, 0] False = inverse_loop 64 [11, 0] [3, 0] [1, 0] False [0, 0] False"
    by (subst inverse_loop.simps, simp only: d1 m1, code_simp, simp?)
  have n2: "\<not> op_lt 64 [11, 0] [3, 0]"
    by code_simp
  have d2: "op_div 64 [11, 0] [3, 0] = [3, 0]"
    using n2 by (rule op_div_eval [where r = "[2, 0]", rotated 5]) (simp_all add: nwords_def)
  have m2: "op_mod 64 [11, 0] [3, 0] = [2, 0]"
    by (rule op_mod_eval [where q = "3"]) (simp_all add: nwords_def)
  have s2: "inverse_loop 64 [11, 0] [3, 0] [1, 0] False [0, 0] False = inverse_loop 64 [3, 0] [2, 0] [3, 0] True [1, 0] False"
    by (subst inverse_loop.simps, simp only: d2 m2, code_simp, simp?)
  have n3: "\<not> op_lt 64 [3, 0] [2, 0]"
    by code_simp
  have d3: "op_div 64 [3, 0] [2, 0] = [1, 0]"
    using n3 by (rule op_div_eval [where r = "[1, 0]", rotated 5]) (simp_all add: nwords_def)
  have m3: "op_mod 64 [3, 0] [2, 0] = [1, 0]"
    by (rule op_mod_eval [where q = "1"]) (simp_all add: nwords_def)
  have s3: "inverse_loop 64 [3, 0] [2, 0] [3, 0] True [1, 0] False = inverse_loop 64 [2, 0] [1, 0] [4, 0] False [3, 0] True"
    by (subst inverse_loop.simps, simp only: d3 m3, code_simp, simp?)
  have n4: "\<not> op_lt 64 [2, 0] [1, 0]"
    by code_simp
  have d4: "op_div 64 [2, 0] [1, 0] = [2, 0]"
    using n4 by (rule op_div_eval [where r = "[0, 0]", rotated 5]) (simp_all add: nwords_def)
  have m4: "op_mod 64 [2, 0] [1, 0] = [0, 0]"
    by (rule op_mod_eval [where q = "2"]) (simp_all add: nwords_def)
  have s4: "inverse_loop 64 [2, 0] [1, 0] [4, 0] False [3, 0] True = inverse_loop 64 [1, 0] [0, 0] [11, 0] True [4, 0] False"
    by (subst inverse_loop.simps, simp only: d4 m4, code_simp, simp?)
  have s5: "inverse_loop 64 [1, 0] [0, 0] [11, 0] True [4, 0] False = Some ([4, 0], False)"
    by (subst inverse_loop.simps, code_simp)
  have z: "Bigint_words 64 0 = [0, 0]" and o: "Bigint_words 64 1 = [1, 0]"
    by code_simp+
  show ?thesis
    unfolding inverse_bigint_def z o by (simp only: s1 s2 s3 s4 s5 option.case fst_conv snd_conv if_False)
qed

lemma gcd_bigint_5_1: "gcd_bigint 64 [5, 0] [1, 0] = Some [1, 0]"
proof -
  have n1: "\<not> op_lt 64 [5, 0] [1, 0]"
    by code_simp
  have m1: "op_mod 64 [5, 0] [1, 0] = [0, 0]"
    by (rule op_mod_eval [where q = "5"]) (simp_all add: nwords_def)
  have s1: "gcd_loop 64 [5, 0] [1, 0] = gcd_loop 64 [1, 0] [0, 0]"
    by (subst gcd_loop.simps, simp only: m1, code_simp, simp?)
  have s2: "gcd_loop 64 [1, 0] [0, 0] = Some [1, 0]"
    by (subst gcd_loop.simps, code_simp)
  show ?thesis
    unfolding gcd_bigint_def by (simp only: s1 s2)
qed

lemma inverse_bigint_5_1: "inverse_bigint 64 [5, 0] [1, 0] = Some [0, 0]"
proof -
  have n1: "\<not> op_lt 64 [5, 0] [1, 0]"
    by code_simp
  have d1: "op_div 64 [5, 0] [1, 0] = [5, 0]"
    using n1 by (rule op_div_eval [where r = "[0, 0]", rotated 5]) (simp_all add: nwords_def)
  have m1: "op_mod 64 [5, 0] [1, 0] = [0, 0]"
    by (rule op_mod_eval [where q = "5"]) (simp_all add: nwords_def)
  have s1: "inverse_loop 64 [5, 0] [1, 0] [0, 0] False [1, 0] False = inverse_loop 64 [1, 0] [0, 0] [1, 0] False [0, 0] False"
    by (subst inverse_loop.simps, simp only: d1 m1, code_simp, simp?)
  have s2: "inverse_loop 64 [1, 0] [0, 0] [1, 0] False [0, 0] False = Some ([0, 0], False)"
    by (subst inverse_loop.simps, code_simp)
  have z: "Bigint_words 64 0 = [0, 0]" and o: "Bigint_words 64 1 = [1, 0]"
    by code_simp+
  show ?thesis
    unfolding inverse_bigint_def z o by (simp only: s1 s2 option.case fst_conv snd_conv if_False)
qed

lemma gcd_bigint_pow32: "gcd_bigint 64 [0, 1] [1, 1] = Some [1, 0]"
proof -
  have n1: "\<not> op_lt 64 [0, 1] [1, 1]"
    by code_simp
  have m1: "op_mod 64 [0, 1] [1, 1] = [0, 1]"
    by (rule op_mod_eval [where q = "0"]) (simp_all add: nwords_def)
  have s1: "gcd_loop 64 [0, 1] [1, 1] = gcd_loop 64 [1, 1] [0, 1]"
    by (subst gcd_loop.simps, simp only: m1, code_simp, simp?)
  have n2: "\<not> op_lt 64 [1, 1] [0, 1]"
    by code_simp
  have m2: "op_mod 64 [1, 1] [0, 1] = [1, 0]"
    by (rule op_mod_eval [where q = "1"]) (simp_all add: nwords_def)
  have s2: "gcd_loop 64 [1, 1] [0, 1] = gcd_loop 64 [0, 1] [1, 0]"
    by (subst gcd_loop.simps, simp only: m2, code_simp, simp?)
  have n3: "\<not> op_lt 64 [0, 1] [1, 0]"
    by code_simp
  have m3: "op_mod 64 [0, 1] [1, 0] = [0, 0]"
    by (rule op_mod_eval [where q = "4294967296"]) (simp_all add: nwords_def)
  have s3: "gcd_loop 64 [0, 1] [1, 0] = gcd_loop 64 [1, 0] [0, 0]"
    by (subst gcd_loop.simps, simp only: m3, code_simp, simp?)
  have s4: "gcd_loop 64 [1, 0] [0, 0] = Some [1, 0]"
    by (subst gcd_loop.simps, code_simp)
  show ?thesis
    unfolding gcd_bigint_def by (simp only: s1 s2 s3 s4)
qed

lemma inverse_bigint_pow32: "inverse_bigint 64 [0, 1] [1, 1] = Some [0, 1]"
proof -
  have n1: "\<not> op_lt 64 [0, 1] [1, 1]"
    by code_simp
  have d1: "op_div 64 [0, 1] [1, 1] = [0, 0]"
    using n1 by (rule op_div_eval [where r = "[0, 1]", rotated 5]) (simp_all add: nwords_def)
  have m1: "op_mod 64 [0, 1] [1, 1] = [0, 1]"
    by (rule op_mod_eval [where q = "0"]) (simp_all add: nwords_def)
  have s1: "inverse_loop 64 [0, 1] [1, 1] [0, 0] False [1, 0] False = inverse_loop 64 [1, 1] [0, 1] [1, 0] False [0, 0] False"
    by (subst inverse_loop.simps, simp only: d1 m1, code_simp, simp?)
  have n2: "\<not> op_lt 64 [1, 1] [0, 1]"
    by code_simp
  have d2: "op_div 64 [1, 1] [0, 1] = [1, 0]"
    using n2 by (rule op_div_eval [where r = "[1, 0]", rotated 5]) (simp_all add: nwords_def)
  have m2: "op_mod 64 [1, 1] [0, 1] = [1, 0]"
    by (rule op_mod_eval [where q = "1"]) (simp_all add: nwords_def)
  have s2: "inverse_loop 64 [1, 1] [0, 1] [1, 0] False [0, 0] False = inverse_loop 64 [0, 1] [1, 0] [1, 0] True [1, 0] False"
    by (subst inverse_loop.simps, simp only: d2 m2, code_simp, simp?)
  have n3: "\<not> op_lt 64 [0, 1] [1, 0]"
    by code_simp
  have d3: "op_div 64 [0, 1] [1, 0] = [0, 1]"
    using n3 by (rule op_div_eval [where r = "[0, 0]", rotated 5]) (simp_all add: nwords_def)
  have m3: "op_mod 64 [0, 1] [1, 0] = [0, 0]"
    by (rule op_mod_eval [where q = "4294967296"]) (simp_all add: nwords_def)
  have s3: "inverse_loop 64 [0, 1] [1, 0] [1, 0] True [1, 0] False = inverse_loop 64 [1, 0] [0, 0] [1, 1] False [1, 0] True"
    by (subst inverse_loop.simps, simp only: d3 m3, code_simp, simp?)
  have s4: "inverse_loop 64 [1, 0] [0, 0] [1, 1] False [1, 0] True = Some ([1, 0], True)"
    by (subst inverse_loop.simps, code_simp)
  have z: "Bigint_words 64 0 = [0, 0]" and o: "Bigint_words 64 1 = [1, 0]"
    by code_simp+
  have f: "op_sub 64 [1, 1] [1, 0] = [0, 1]"
    by code_simp
  show ?thesis
    unfolding inverse_bigint_def z o by (simp only: s1 s2 s3 s4 f option.case fst_conv snd_conv if_True)
qed

text \<open>
  The instance of claim C7 named by the specification: \<open>inverse(3, 11) == 4\<close>, and
  \<open>(3 * 4) % 11 == 1\<close>.
\<close>

theorem inverse_bigint_3_11_is_4:
  "inverse_bigint 64 [3, 0] [11, 0] = Some [4, 0]
   \<and> (val [3, 0] * val [4, 0]) mod val [11, 0] = 1
   \<and> op_eq 64 (op_mod 64 (op_mul 64 [3, 0] [4, 0]) [11, 0]) (Bigint_words 64 1)"
proof -
  have d: "(32 :: nat) dvd 64" and w: "(64 :: nat) \<le> 64" and b: "(64 :: nat) < 2 ^ 21"
    by simp_all
  have l3: "length [3, 0 :: u32] = nwords 64" and l11: "length [11, 0 :: u32] = nwords 64"
    by (simp_all add: nwords_def)
  have b1: "1 < val [11, 0]"
    by simp
  have o: "Bigint_words 64 1 = [1, 0]"
    by code_simp
  have g: "gcd_bigint 64 [3, 0] [11, 0] = Some (Bigint_words 64 1)"
    by (simp only: gcd_bigint_3_11 o)
  show ?thesis
    using inverse_bigint_correct [OF d w b l3 l11 b1 g] by (simp add: inverse_bigint_3_11)
qed

text \<open>
  Two coprime pairs at 64 bits where \<open>(a * inverse(a, b)) % b\<close> is not 1. For
  \<open>a = 2 ^ 32\<close> and \<open>b = 2 ^ 32 + 1\<close> the inverse is \<open>2 ^ 32\<close>, which is right, but
  the product \<open>2 ^ 64\<close> does not fit the width: \<open>operator*\<close> returns 0 and
  \<open>0 % b\<close> is 0. For \<open>b = 1\<close> the inverse is 0 and \<open>0 % 1\<close> is 0.
\<close>

theorem inverse_product_not_one:
  "gcd_bigint 64 [0, 1] [1, 1] = Some (Bigint_words 64 1)
   \<and> inverse_bigint 64 [0, 1] [1, 1] = Some [0, 1]
   \<and> op_mod 64 (op_mul 64 [0, 1] [0, 1]) [1, 1] = [0, 0]
   \<and> \<not> op_eq 64 (op_mod 64 (op_mul 64 [0, 1] [0, 1]) [1, 1]) (Bigint_words 64 1)
   \<and> gcd_bigint 64 [5, 0] [1, 0] = Some (Bigint_words 64 1)
   \<and> inverse_bigint 64 [5, 0] [1, 0] = Some [0, 0]
   \<and> \<not> op_eq 64 (op_mod 64 (op_mul 64 [5, 0] [0, 0]) [1, 0]) (Bigint_words 64 1)"
proof -
  have o: "Bigint_words 64 1 = [1, 0]"
    by code_simp
  have m: "op_mod 64 (op_mul 64 [0, 1] [0, 1]) [1, 1] = [0, 0]"
    by code_simp
  have e: "\<not> op_eq 64 [0, 0] [1, 0]"
    by code_simp
  have m': "op_mod 64 (op_mul 64 [5, 0] [0, 0]) [1, 0] = [0, 0]"
    by code_simp
  show ?thesis
    by (simp only: o m m' e gcd_bigint_pow32 inverse_bigint_pow32 gcd_bigint_5_1
          inverse_bigint_5_1 simp_thms)
qed

section \<open>The constructor from text and the rendering\<close>

lemma digit_val_bounds: "isxdigit c \<Longrightarrow> 0 \<le> digit_val c \<and> digit_val c < 16"
  by (auto simp add: isxdigit_def digit_val_def)

lemma hex_fold_bounds:
  "list_all isxdigit s \<Longrightarrow> 0 \<le> acc \<Longrightarrow>
     0 \<le> foldl (\<lambda>acc c. 16 * acc + digit_val c) acc s
     \<and> foldl (\<lambda>acc c. 16 * acc + digit_val c) acc s < (acc + 1) * 16 ^ length s"
proof (induction s arbitrary: acc)
  case Nil
  then show ?case by simp
next
  case (Cons c s)
  have c: "0 \<le> digit_val c" "digit_val c < 16"
    using Cons.prems(1) digit_val_bounds [of c] by simp_all
  have "0 \<le> 16 * acc + digit_val c"
    using c(1) Cons.prems(2) by simp
  then have ih: "0 \<le> foldl (\<lambda>acc c. 16 * acc + digit_val c) (16 * acc + digit_val c) s
     \<and> foldl (\<lambda>acc c. 16 * acc + digit_val c) (16 * acc + digit_val c) s
          < (16 * acc + digit_val c + 1) * 16 ^ length s"
    using Cons.prems(1) by (intro Cons.IH) simp_all
  have "(16 * acc + digit_val c + 1) * 16 ^ length s \<le> (16 * acc + 16) * 16 ^ length s"
    using c(2) by (intro mult_right_mono) simp_all
  also have "\<dots> = (acc + 1) * 16 ^ length (c # s)"
    by (simp add: algebra_simps)
  finally have le: "(16 * acc + digit_val c + 1) * 16 ^ length s \<le> (acc + 1) * 16 ^ length (c # s)" .
  have "foldl (\<lambda>acc c. 16 * acc + digit_val c) (16 * acc + digit_val c) s
          < (acc + 1) * 16 ^ length (c # s)"
    using conjunct2 [OF ih] le by (rule less_le_trans)
  then show ?case
    using conjunct1 [OF ih] by simp
qed

lemma hex_value_bounds:
  "string_check x \<Longrightarrow> 0 \<le> hex_value x \<and> hex_value x < 16 ^ length x"
  using hex_fold_bounds [of x 0] by (simp add: string_check_def hex_value_def)

lemma ushort_le: "ushort k \<le> k"
  by (simp add: ushort_def unat_of_nat)

lemma length_hex_digits [simp]: "length (hex_digits k w) = k"
  by (induction k) simp_all

lemma length_hex_plain: "length (hex_plain w) \<le> 8"
  using length_dropWhile_le [of "\<lambda>c. c = CHR ''0''" "hex_digits 8 w"]
  by (simp add: hex_plain_def)

lemma out_scan_low_word:
  "(\<And>i. 0 < i \<Longrightarrow> i < k \<Longrightarrow> x ! i = 0) \<Longrightarrow> length (out_scan x k True) \<le> 8"
proof (induction k)
  case 0
  then show ?case by simp
next
  case (Suc k)
  show ?case
  proof (cases "x ! k = 0")
    case True
    have "length (out_scan x k True) \<le> 8"
      using Suc.prems by (intro Suc.IH) simp_all
    then show ?thesis
      using True by simp
  next
    case False
    then have "k = 0"
      using Suc.prems [of k] by auto
    then show ?thesis
      using False length_hex_plain [of "x ! 0"] by simp
  qed
qed

text \<open>
  Claim C5. A string of 8 to 15 hexadecimal digits has \<open>number_of_runs = 1\<close>, so the
  test \<open>number_of_runs > 1\<close> fails and the constructor runs
  \<open>sscanf(x, "%X", &storage[0])\<close>: only word 0 is written, with the low 32 bits of the
  number, and every digit before the last eight is lost, although 9 to 15 digits fit
  a width of 64 bits or more. With two runs or more the same constructor stores those
  digits in the next word. The claim says the text rendered is \<open>s\<close> without its
  leading zeros; for these lengths the code renders at most eight characters.
\<close>

theorem Bigint_str_one_run_keeps_low_word:
  assumes "string_check x" and "8 \<le> length x" and "length x < 16" and "64 \<le> bits"
  shows "Bigint_str bits x = Inr ((replicate (nwords bits) 0)[0 := word_of_int (hex_value x)])
         \<and> length (op_out bits ((replicate (nwords bits) 0)[0 := word_of_int (hex_value x)])) \<le> 8"
proof -
  have r: "ushort (length x div 8) = 1"
  proof -
    have "length x div 8 = 1"
      using assms(2,3) by simp
    then show ?thesis
      by (simp add: ushort_def)
  qed
  have "hex_value x < 16 ^ length x"
    using hex_value_bounds [OF assms(1)] by simp
  also have "(16 :: int) ^ length x \<le> 16 ^ 15"
    using assms(3) by (intro power_increasing) simp_all
  finally have v: "hex_value x < 2 ^ 64"
    by simp
  have ne: "x \<noteq> []"
    using assms(2) by auto
  have n: "0 < nwords bits"
    using assms(4) by (simp add: nwords_def)
  have c: "Bigint_str bits x = Inr ((replicate (nwords bits) 0)[0 := word_of_int (hex_value x)])"
    using assms(1) r v ne n by (simp add: Bigint_str_def scan_all_def store_def)
  have "length (out_scan ((replicate (nwords bits) 0)[0 := word_of_int (hex_value x)])
                  (ushort (nwords bits)) True) \<le> 8"
  proof (rule out_scan_low_word)
    fix i
    assume i0: "0 < i" and iu: "i < ushort (nwords bits)"
    have "i < nwords bits"
      using iu ushort_le [of "nwords bits"] by simp
    then show "(replicate (nwords bits) 0)[0 := word_of_int (hex_value x) :: u32] ! i = 0"
      using i0 by simp
  qed
  then show ?thesis
    using c by (simp add: op_out_def)
qed

theorem Bigint_str_nine_digits_drops_first:
  "Bigint_str 64 ''123456789'' = Inr [591751049, 0]
   \<and> op_out 64 [591751049, 0] = ''23456789''
   \<and> Bigint_str 64 ''123456789abcdef0'' = Inr [2596069104, 305419896]
   \<and> op_out 64 [2596069104, 305419896] = ''123456789abcdef0''"
proof -
  have c: "string_check ''123456789''"
    by code_simp
  have w: "(replicate (nwords 64) 0)[0 := word_of_int (hex_value ''123456789'')] = [591751049, 0 :: u32]"
    by code_simp
  have o: "op_out 64 [591751049, 0] = ''23456789''"
    by code_simp
  have s: "Bigint_str 64 ''123456789abcdef0'' = Inr [2596069104, 305419896]"
    by code_simp
  have o': "op_out 64 [2596069104, 305419896] = ''123456789abcdef0''"
    by code_simp
  show ?thesis
    using Bigint_str_one_run_keeps_low_word [of "''123456789''" 64] c w o s o'
    by simp
qed

end
